theory Spec2Isabelle
  imports Main
begin

section \<open>Bytes and errors\<close>

text \<open>
  Byte streams are lists of \<^typ>\<open>char\<close> (an 8-bit byte). The Go source writes the two
  line-terminator bytes as \<^verbatim>\<open>'\r'\<close> and \<^verbatim>\<open>'\n'\<close>.
\<close>

abbreviation CR :: char where "CR \<equiv> CHR 0x0D"
abbreviation LF :: char where "LF \<equiv> CHR 0x0A"

text \<open>
  The error values that can reach \<^verbatim>\<open>parseStatus\<close>, \<^verbatim>\<open>ReadRequest\<close>,
  \<^verbatim>\<open>WriteRequest\<close> and \<^verbatim>\<open>Probe\<close>. Go compares \<^verbatim>\<open>err == io.EOF\<close>
  by identity, so \<open>EOF\<close> is a constructor of its own.
\<close>

datatype error =
    EOF                        \<comment> \<open>\<^verbatim>\<open>io.EOF\<close>\<close>
  | ErrUnexpectedEOF           \<comment> \<open>\<^verbatim>\<open>io.ErrUnexpectedEOF\<close>\<close>
  | ErrBufferFull              \<comment> \<open>\<^verbatim>\<open>bufio.ErrBufferFull\<close>\<close>
  | ErrNegativeCount           \<comment> \<open>\<^verbatim>\<open>bufio.ErrNegativeCount\<close>\<close>
  | ErrShortWrite              \<comment> \<open>\<^verbatim>\<open>io.ErrShortWrite\<close>\<close>
  | ErrRange                   \<comment> \<open>\<^verbatim>\<open>strconv.ErrRange\<close>, from \<^verbatim>\<open>strconv.ParseInt\<close>\<close>
  | ScanError string           \<comment> \<open>an error raised by package \<^verbatim>\<open>fmt\<close> while scanning\<close>
  | ErrorString string         \<comment> \<open>\<^verbatim>\<open>errors.New\<close> and \<^verbatim>\<open>fmt.Errorf\<close> without \<^verbatim>\<open>%w\<close>\<close>
  | ErrClosedPipe              \<comment> \<open>the error of a connection that rejects a write\<close>
  | Malformed error nat        \<comment> \<open>\<^verbatim>\<open>fmt.Errorf("malformed request: %w (id=%d)", err, id)\<close>\<close>
  | Panic string               \<comment> \<open>a \<^verbatim>\<open>panic\<close> of the source, kept as a value\<close>

section \<open>The buffered reader (package bufio)\<close>

text \<open>
  A \<^verbatim>\<open>*bufio.Reader\<close> over a stream that delivers a finite sequence of bytes and then
  \<^verbatim>\<open>io.EOF\<close> is modelled by the bytes it has not handed out yet (those in its buffer and
  those still in the stream). Every reader of this package is made by
  \<^verbatim>\<open>bufio.NewReader\<close>, so its buffer holds \<open>defaultBufSize\<close> bytes.
\<close>

type_synonym Reader = string

definition defaultBufSize :: nat where
  "defaultBufSize = 4096"

fun IndexByte :: "string \<Rightarrow> char \<Rightarrow> nat option" where
  "IndexByte [] c = None"
| "IndexByte (x # xs) c = (if x = c then Some 0 else map_option Suc (IndexByte xs c))"

text \<open>
  \<^verbatim>\<open>ReadString(delim)\<close> reads up to and including the first \<open>delim\<close>; when the stream
  ends first it returns what it read together with \<^verbatim>\<open>io.EOF\<close>. It has no length limit.
\<close>

definition ReadString :: "char \<Rightarrow> Reader \<Rightarrow> (string \<times> error option) \<times> Reader" where
  "ReadString delim r =
     (case IndexByte r delim of
        Some i \<Rightarrow> ((take (Suc i) r, None), drop (Suc i) r)
      | None \<Rightarrow> ((r, Some EOF), []))"

text \<open>
  \<^verbatim>\<open>ReadSlice(delim)\<close> returns a slice of the buffer, so the line with its delimiter has
  to fit the buffer: it fails with \<^verbatim>\<open>ErrBufferFull\<close> when the buffer fills without a
  delimiter, and with \<^verbatim>\<open>io.EOF\<close> when the stream ends first. (A stream that ends after
  exactly a buffer's worth of bytes is taken to report the end on the read after the
  last byte, as network connections and \<^verbatim>\<open>strings.Reader\<close> do.)
\<close>

definition ReadSlice :: "char \<Rightarrow> Reader \<Rightarrow> (string \<times> error option) \<times> Reader" where
  "ReadSlice delim r =
     (case IndexByte (take defaultBufSize r) delim of
        Some i \<Rightarrow> ((take (Suc i) r, None), drop (Suc i) r)
      | None \<Rightarrow>
          if length r < defaultBufSize then ((r, Some EOF), [])
          else ((take defaultBufSize r, Some ErrBufferFull), drop defaultBufSize r))"

text \<open>
  \<^verbatim>\<open>Discard(n)\<close> skips the next \<open>n\<close> bytes and returns how many it skipped; it fails
  with \<^verbatim>\<open>ErrNegativeCount\<close> for a negative \<open>n\<close> and with \<^verbatim>\<open>io.EOF\<close> when fewer
  than \<open>n\<close> bytes are left.
\<close>

definition Discard :: "int \<Rightarrow> Reader \<Rightarrow> (int \<times> error option) \<times> Reader" where
  "Discard n r =
     (if n < 0 then ((0, Some ErrNegativeCount), r)
      else if n \<le> int (length r) then ((n, None), drop (nat n) r)
      else ((int (length r), Some EOF), []))"

section \<open>Scanning (package fmt)\<close>

text \<open>
  \<^verbatim>\<open>fmt.Sscanf\<close> reads runes. The only runes it tells apart here are the ASCII bytes of
  the format, the digits, the signs and white space (\<^verbatim>\<open>isSpace\<close>: U+0009..U+000D,
  U+0020, U+0085, U+00A0, U+1680, U+2000..U+200A, U+2028, U+2029, U+202F, U+205F,
  U+3000). \<open>space_len s\<close> is the number of bytes of the white-space rune at the head of
  \<open>s\<close> in UTF-8, and 0 when \<open>s\<close> is empty or starts with any other rune.
\<close>

definition space_len :: "string \<Rightarrow> nat" where
  "space_len s =
     (case map of_char (take 3 s) :: nat list of
        [] \<Rightarrow> 0
      | b0 # bs \<Rightarrow>
          if (9 \<le> b0 \<and> b0 \<le> 13) \<or> b0 = 32 then 1
          else (case bs of
                  [] \<Rightarrow> 0
                | b1 # bs' \<Rightarrow>
                    if b0 = 0xC2 \<and> (b1 = 0x85 \<or> b1 = 0xA0) then 2
                    else (case bs' of
                            [] \<Rightarrow> 0
                          | b2 # _ \<Rightarrow>
                              if (b0 = 0xE1 \<and> b1 = 0x9A \<and> b2 = 0x80)
                               \<or> (b0 = 0xE2 \<and> b1 = 0x80 \<and> 0x80 \<le> b2 \<and> b2 \<le> 0x8A)
                               \<or> (b0 = 0xE2 \<and> b1 = 0x80 \<and> (b2 = 0xA8 \<or> b2 = 0xA9 \<or> b2 = 0xAF))
                               \<or> (b0 = 0xE2 \<and> b1 = 0x81 \<and> b2 = 0x9F)
                               \<or> (b0 = 0xE3 \<and> b1 = 0x80 \<and> b2 = 0x80)
                              then 3 else 0)))"

text \<open>
  The loop \<^verbatim>\<open>for isSpace(inputc) && inputc != '\n' { inputc = s.getRune() }\<close> of
  \<^verbatim>\<open>advance\<close>: skip white space other than newline.
\<close>

fun skip_blanks :: "string \<Rightarrow> string" where
  "skip_blanks [] = []"
| "skip_blanks (c # cs) =
     (if space_len (c # cs) = 0 \<or> c = LF then c # cs
      else skip_blanks (drop (space_len (c # cs) - 1) cs))"

text \<open>
  \<^verbatim>\<open>(*ss).SkipSpace\<close> for \<^verbatim>\<open>Sscanf\<close> (where a newline is not white space): skip
  white space, fail at a newline, stop at the end of the input or before any other rune.
\<close>

fun SkipSpace :: "string \<Rightarrow> error + string" where
  "SkipSpace [] = Inr []"
| "SkipSpace (c # cs) =
     (if c = LF then Inl (ScanError ''unexpected newline'')
      else if space_len (c # cs) = 0 then Inr (c # cs)
      else SkipSpace (drop (space_len (c # cs) - 1) cs))"

definition is_digit :: "char \<Rightarrow> bool" where
  "is_digit c \<longleftrightarrow> c \<in> set ''0123456789''"

definition digit_val :: "char \<Rightarrow> int" where
  "digit_val c = int (of_char c) - 48"

text \<open>The value of a string of decimal digits, most significant digit first.\<close>

definition dec_value :: "string \<Rightarrow> int" where
  "dec_value ds = foldl (\<lambda>acc c. 10 * acc + digit_val c) 0 ds"

text \<open>
  \<^verbatim>\<open>(*ss).scanInt\<close> for the verb \<^verbatim>\<open>%d\<close> into a 64-bit \<^verbatim>\<open>int\<close>: skip white
  space, panic with \<^verbatim>\<open>io.EOF\<close> at the end of the input, accept one sign, require a
  digit, accept the digits that follow, and convert with \<^verbatim>\<open>strconv.ParseInt\<close>, which
  fails outside the 64-bit range. The result is the value and the input left over.
\<close>

definition scanInt :: "string \<Rightarrow> error + (int \<times> string)" where
  "scanInt s0 =
     (case SkipSpace s0 of
        Inl e \<Rightarrow> Inl e
      | Inr s \<Rightarrow>
          if s = [] then Inl EOF
          else
            let neg = (hd s = CHR ''-'');
                s1 = (if hd s = CHR ''+'' \<or> hd s = CHR ''-'' then tl s else s)
            in if s1 = [] then Inl EOF
               else if \<not> is_digit (hd s1) then Inl (ScanError ''expected integer'')
               else
                 let v = dec_value (takeWhile is_digit s1);
                     i = (if neg then - v else v)
                 in if i < - (2 ^ 63) \<or> 2 ^ 63 \<le> i then Inl ErrRange
                    else Inr (i, dropWhile is_digit s1))"

text \<open>Literal bytes of a format, matched one by one by \<^verbatim>\<open>advance\<close>.\<close>

fun match_literal :: "string \<Rightarrow> string \<Rightarrow> error + string" where
  "match_literal [] s = Inr s"
| "match_literal (f # fs) [] = Inl ErrUnexpectedEOF"
| "match_literal (f # fs) (c # cs) =
     (if f = c then match_literal fs cs
      else Inl (ScanError ''input does not match format''))"

text \<open>
  A space of the format that stands alone: the input has to be at its end or continue
  with white space that is not a newline, which is skipped.
\<close>

definition match_space :: "string \<Rightarrow> error + string" where
  "match_space s =
     (if s = [] then Inr []
      else if space_len s = 0 then Inl (ScanError ''expected space in input to match format'')
      else if hd s = LF then Inl (ScanError ''newline in input does not match format'')
      else Inr (skip_blanks s))"

text \<open>
  The run \<^verbatim>\<open>"\r\n"\<close> of the format is white space holding one newline: the input may
  continue with white space and then has to be at a newline or at its end.
\<close>

definition match_newline :: "string \<Rightarrow> error + string" where
  "match_newline s =
     (let s' = skip_blanks s
      in if s' = [] then Inr []
         else if hd s' = LF then Inr (tl s')
         else Inl (ScanError ''newline in format does not match input''))"

text \<open>
  \<^verbatim>\<open>fmt.Sscanf(line, "HTTP/1.1 %d", &status)\<close>: the number of items scanned, the value
  stored in \<^verbatim>\<open>status\<close> (0 when nothing was stored) and the error.
\<close>

definition Sscanf_status :: "string \<Rightarrow> nat \<times> int \<times> error option" where
  "Sscanf_status line =
     (case match_literal ''HTTP/1.1'' line of
        Inl e \<Rightarrow> (0, 0, Some e)
      | Inr s1 \<Rightarrow>
          (case match_space s1 of
             Inl e \<Rightarrow> (0, 0, Some e)
           | Inr s2 \<Rightarrow>
               (case SkipSpace s2 of
                  Inl e \<Rightarrow> (0, 0, Some e)
                | Inr s3 \<Rightarrow>
                    (case scanInt s3 of
                       Inl e \<Rightarrow> (0, 0, Some e)
                     | Inr (v, rest) \<Rightarrow> (1, v, None)))))"

text \<open>\<^verbatim>\<open>fmt.Sscanf(value, "%d\r\n", &contentLength)\<close>, with the same three results.\<close>

definition Sscanf_length :: "string \<Rightarrow> nat \<times> int \<times> error option" where
  "Sscanf_length val =
     (case SkipSpace val of
        Inl e \<Rightarrow> (0, 0, Some e)
      | Inr s1 \<Rightarrow>
          (case scanInt s1 of
             Inl e \<Rightarrow> (0, 0, Some e)
           | Inr (v, s2) \<Rightarrow>
               (case match_newline s2 of
                  Inl e \<Rightarrow> (1, v, Some e)
                | Inr rest \<Rightarrow> (1, v, None))))"

section \<open>Package bytes\<close>

text \<open>
  \<^verbatim>\<open>bytes.ToLower\<close> on the ASCII letters. (On a line with bytes from 0x80 on Go
  lower-cases rune by rune; no such rune becomes a letter of \<^verbatim>\<open>content-length:\<close>, a digit,
  a sign or white space, so the prefix test and the scan below see the same.)
\<close>

definition lower_byte :: "char \<Rightarrow> char" where
  "lower_byte c =
     (if (65::nat) \<le> of_char c \<and> of_char c \<le> (90::nat) then char_of (of_char c + (32::nat)) else c)"

definition ToLower :: "string \<Rightarrow> string" where
  "ToLower s = map lower_byte s"

definition HasPrefix :: "string \<Rightarrow> string \<Rightarrow> bool" where
  "HasPrefix s p \<longleftrightarrow> length p \<le> length s \<and> take (length p) s = p"

section \<open>parseStatus\<close>

lemma IndexByte_Some_less: "IndexByte s c = Some i \<Longrightarrow> i < length s"
  by (induction s arbitrary: i) (auto split: if_splits)

lemma ReadSlice_shorter:
  "ReadSlice d r = ((line, None), r') \<Longrightarrow> length r' < length r"
  by (auto simp: ReadSlice_def split: option.splits if_splits dest!: IndexByte_Some_less)

lemma ReadSlice_shorter_eq:
  "(x, r') = ReadSlice d r \<Longrightarrow> (line, e) = x \<Longrightarrow> e = None \<Longrightarrow> length r' < length r"
  using ReadSlice_shorter [of d r line r'] by simp

text \<open>
  The header loop of \<^verbatim>\<open>parseStatus\<close> (lines 173 to 200), with the two variables it
  updates as arguments. It returns the content length when it reaches the blank line.
\<close>

function header_loop :: "int \<Rightarrow> bool \<Rightarrow> Reader \<Rightarrow> (error + int) \<times> Reader" where
  "header_loop contentLength lengthFound r =
     (case ReadSlice LF r of
        ((line, Some e), r') \<Rightarrow> (Inl e, r')
      | ((line, None), r') \<Rightarrow>
          if length line = 2 \<and> line ! 0 = CR \<and> line ! 1 = LF then (Inr contentLength, r')
          else if lengthFound \<or> (line ! 0 \<noteq> CHR ''C'' \<and> line ! 0 \<noteq> CHR ''c'')
          then header_loop contentLength lengthFound r'
          else
            let lower = ToLower line
            in if HasPrefix lower ''content-length:'' then
                 (case Sscanf_length (drop (length ''content-length:'') lower) of
                    (n, v, Some e) \<Rightarrow> (Inl e, r')
                  | (n, v, None) \<Rightarrow>
                      if n \<noteq> 1 then (Inl (ErrorString ''no content length''), r')
                      else header_loop v True r')
               else header_loop contentLength lengthFound r')"
  by pat_completeness auto
termination
  by (relation "measure (\<lambda>(c, f, r). length r)")
     (simp, (simp (no_asm) only: in_measure prod.case, erule (2) ReadSlice_shorter_eq)+)

definition parseStatus :: "Reader \<Rightarrow> (error + int) \<times> Reader" where
  "parseStatus r =
     (case ReadString LF r of
        ((line, Some e), r1) \<Rightarrow> (Inl e, r1)
      | ((line, None), r1) \<Rightarrow>
          (case Sscanf_status line of
             (n, status, Some e) \<Rightarrow> (Inl e, r1)
           | (n, status, None) \<Rightarrow>
               if n \<noteq> 1 then (Inl (ErrorString ''malformed status line''), r1)
               else
                 (case header_loop 0 False r1 of
                    (Inl e, r2) \<Rightarrow> (Inl e, r2)
                  | (Inr contentLength, r2) \<Rightarrow>
                      (case Discard contentLength r2 of
                         ((d, Some e), r3) \<Rightarrow> (Inl e, r3)
                       | ((d, None), r3) \<Rightarrow> (Inr status, r3)))))"

section \<open>The connection and the buffered writer\<close>

text \<open>
  The \<^verbatim>\<open>io.ReadWriter\<close> handed to \<^verbatim>\<open>Probe\<close>, together with the
  \<^verbatim>\<open>bufio.Reader\<close> and the \<^verbatim>\<open>bufio.Writer\<close> that \<^verbatim>\<open>Probe\<close> puts on it. The peer's
  answer is a fixed sequence of bytes followed by the end of the stream. The peer
  accepts \<open>limit\<close> bytes in all and rejects what is written beyond them. A prober
  with fields of its own keeps them in an extension of the record.
\<close>

record Conn =
  incoming :: Reader           \<comment> \<open>the reader: bytes of the peer not handed out yet\<close>
  sent :: string               \<comment> \<open>bytes delivered to the peer\<close>
  limit :: "nat option"        \<comment> \<open>bytes the peer accepts; \<open>None\<close>: any number\<close>
  wbuf :: string               \<comment> \<open>the writer: \<^verbatim>\<open>b.buf[0:b.n]\<close>\<close>
  werr :: "error option"       \<comment> \<open>the writer: \<^verbatim>\<open>b.err\<close>\<close>

text \<open>What \<^verbatim>\<open>Probe\<close> starts from: nothing written, both buffers fresh.\<close>

definition dial :: "string \<Rightarrow> nat option \<Rightarrow> Conn" where
  "dial bs l = \<lparr>incoming = bs, sent = [], limit = l, wbuf = [], werr = None\<rparr>"

text \<open>\<^verbatim>\<open>Write\<close> of the connection itself: the number of bytes taken and the error.\<close>

definition conn_Write :: "string \<Rightarrow> 'a Conn_scheme \<Rightarrow> (nat \<times> error option) \<times> 'a Conn_scheme" where
  "conn_Write p c =
     (case limit c of
        None \<Rightarrow> ((length p, None), c\<lparr>sent := sent c @ p\<rparr>)
      | Some l \<Rightarrow>
          let k = l - length (sent c)
          in if length p \<le> k then ((length p, None), c\<lparr>sent := sent c @ p\<rparr>)
             else ((k, Some ErrClosedPipe), c\<lparr>sent := sent c @ take k p\<rparr>))"

definition Available :: "'a Conn_scheme \<Rightarrow> nat" where
  "Available b = defaultBufSize - length (wbuf b)"

text \<open>\<^verbatim>\<open>(*bufio.Writer).Flush\<close>.\<close>

definition Flush :: "'a Conn_scheme \<Rightarrow> error option \<times> 'a Conn_scheme" where
  "Flush b =
     (case werr b of
        Some e \<Rightarrow> (Some e, b)
      | None \<Rightarrow>
          if wbuf b = [] then (None, b)
          else
            (case conn_Write (wbuf b) b of
               ((n, err), b') \<Rightarrow>
                 (case (if n < length (wbuf b) \<and> err = None then Some ErrShortWrite else err) of
                    Some e \<Rightarrow> (Some e, b'\<lparr>wbuf := drop n (wbuf b), werr := Some e\<rparr>)
                  | None \<Rightarrow> (None, b'\<lparr>wbuf := []\<rparr>))))"

lemma conn_Write_res:
  "conn_Write p c = ((n, err), c') \<Longrightarrow>
     wbuf c' = wbuf c \<and> werr c' = werr c \<and> (err = None \<longrightarrow> n = length p)"
  by (auto simp: conn_Write_def Let_def split: option.splits if_splits)

lemma Flush_res:
  "Flush b = (e, b') \<Longrightarrow> werr b = None \<Longrightarrow> werr b' \<noteq> None \<or> wbuf b' = []"
  by (auto simp: Flush_def split: option.splits if_splits prod.splits dest: conn_Write_res)

text \<open>
  \<^verbatim>\<open>(*bufio.Writer).Write\<close>: while \<open>p\<close> does not fit the buffer and no error is
  pending, either hand \<open>p\<close> to the connection (empty buffer) or fill the buffer and
  flush it; then copy what is left of \<open>p\<close> into the buffer.
\<close>

function Write :: "string \<Rightarrow> 'a Conn_scheme \<Rightarrow> (nat \<times> error option) \<times> 'a Conn_scheme" where
  "Write p b =
     (if length p > Available b \<and> werr b = None then
        (if wbuf b = [] then
           (case conn_Write p b of
              ((n, err), b') \<Rightarrow>
                (case Write (drop n p) (b'\<lparr>werr := err\<rparr>) of
                   ((nn, e), b'') \<Rightarrow> ((n + nn, e), b'')))
         else
           (let n = Available b
            in case Flush (b\<lparr>wbuf := wbuf b @ take n p\<rparr>) of
                 (_, b') \<Rightarrow>
                   (case Write (drop n p) b' of
                      ((nn, e), b'') \<Rightarrow> ((n + nn, e), b''))))
      else
        (case werr b of
           Some e \<Rightarrow> ((0, Some e), b)
         | None \<Rightarrow> ((length p, None), b\<lparr>wbuf := wbuf b @ p\<rparr>)))"
  by pat_completeness auto
termination
proof (relation "measure (\<lambda>(p, b). if werr b \<noteq> None then 0
         else 1 + 2 * length p + (if length (wbuf b) \<ge> defaultBufSize then 1 else 0))",
       goal_cases)
  case 1
  then show ?case by simp
next
  case (2 p b x b' n err)
  then show ?case
    using conn_Write_res [of p b n err b']
    by (auto simp: Available_def defaultBufSize_def)
next
  case (3 p b n e b')
  then show ?case
    using Flush_res [of "b\<lparr>wbuf := wbuf b @ take n p\<rparr>" e b']
    by (auto simp: Available_def defaultBufSize_def)
qed

section \<open>Probers\<close>

text \<open>
  The interface \<^verbatim>\<open>Prober\<close>. Its methods act on the state \<open>'s\<close> of everything they can
  reach: the two buffers, the connection under them and the prober's own fields.
  \<^verbatim>\<open>NumRequests\<close> is a \<^verbatim>\<open>uint\<close>; identifiers count up to it and never wrap.
\<close>

record 's Prober =
  NumRequests :: nat
  WriteRequest :: "nat \<Rightarrow> 's \<Rightarrow> error option \<times> 's"
  ReadRequest :: "nat \<Rightarrow> 's \<Rightarrow> (bool \<times> error option) \<times> 's"

subsection \<open>The default prober\<close>

definition crlf :: string where
  "crlf = [CR, LF]"

text \<open>\<^verbatim>\<open>fmt.Fprintf(w, format, p.host)\<close> formats the request and writes it with one \<^verbatim>\<open>Write\<close>.\<close>

definition optionsProber_WriteRequest :: "string \<Rightarrow> nat \<Rightarrow> Conn \<Rightarrow> error option \<times> Conn" where
  "optionsProber_WriteRequest host ident w =
     (if ident = 0 then
        (case Write (''OPTIONS * HTTP/1.1'' @ crlf @ ''Host: '' @ host @ crlf @ crlf) w of
           ((n, err), w') \<Rightarrow> (err, w'))
      else if ident = 1 then
        (case Write (''OPTIONS . HTTP/1.1'' @ crlf @ ''Host: '' @ host @ crlf @ crlf) w of
           ((n, err), w') \<Rightarrow> (err, w'))
      else (Some (Panic ''invalid id''), w))"

definition optionsProber_ReadRequest ::
  "string \<Rightarrow> nat \<Rightarrow> Conn \<Rightarrow> (bool \<times> error option) \<times> Conn" where
  "optionsProber_ReadRequest host ident c =
     (if ident \<ge> 2 then ((False, Some (Panic ''invalid id'')), c)
      else
        (case parseStatus (incoming c) of
           (Inl err, r) \<Rightarrow>
             if err = EOF then ((False, None), c\<lparr>incoming := r\<rparr>)
             else ((False, Some (Malformed err ident)), c\<lparr>incoming := r\<rparr>)
         | (Inr code, r) \<Rightarrow>
             ((if ident = 0 then code = 200 else code = 400, None), c\<lparr>incoming := r\<rparr>)))"

definition optionsProber :: "string \<Rightarrow> Conn Prober" where
  "optionsProber host =
     \<lparr>NumRequests = 2,
      WriteRequest = optionsProber_WriteRequest host,
      ReadRequest = optionsProber_ReadRequest host\<rparr>"

section \<open>Probe\<close>

text \<open>
  \<^verbatim>\<open>Probe\<close> starts one goroutine and talks to it over two channels. The channel
  \<^verbatim>\<open>writes\<close> has room for all \<open>n\<close> records, so the goroutine never waits to send one;
  the channel \<^verbatim>\<open>flush\<close> has no buffer, so the caller's receive from it returns only
  once the goroutine has run its loop and \<^verbatim>\<open>bw.Flush()\<close>. The caller therefore sees
  the records of the finished loop, and the whole of \<^verbatim>\<open>Probe\<close> is the goroutine's
  loop, the flush, and then the caller's loop over the records.
\<close>

type_synonym write_rec = "nat \<times> error option"

text \<open>The goroutine's loop: the records it sends on \<^verbatim>\<open>writes\<close>, in order.\<close>

function writer_loop :: "'s Prober \<Rightarrow> nat \<Rightarrow> nat \<Rightarrow> 's \<Rightarrow> write_rec list \<times> 's" where
  "writer_loop p n ident s =
     (if ident < n then
        (case WriteRequest p ident s of
           (err, s') \<Rightarrow>
             (case writer_loop p n (Suc ident) s' of
                (ws, s'') \<Rightarrow> ((ident, err) # ws, s'')))
      else ([], s))"
  by pat_completeness auto
termination
  by (relation "measure (\<lambda>(p, n, ident, s). n - ident)") auto

text \<open>The caller's loop \<^verbatim>\<open>for w := range writes\<close>.\<close>

fun reader_loop :: "'s Prober \<Rightarrow> write_rec list \<Rightarrow> bool \<Rightarrow> 's \<Rightarrow> (bool \<times> error option) \<times> 's" where
  "reader_loop p [] available s = ((available, None), s)"
| "reader_loop p ((ident, err) # ws) available s =
     (case err of
        Some e \<Rightarrow> ((False, Some e), s)
      | None \<Rightarrow>
          (case ReadRequest p ident s of
             ((expected, Some e), s') \<Rightarrow> ((False, Some e), s')
           | ((expected, None), s') \<Rightarrow> reader_loop p ws (available \<and> expected) s'))"

text \<open>
  \<^verbatim>\<open>Probe(rw, p)\<close>. The argument \<open>flush\<close> is \<^verbatim>\<open>bw.Flush\<close> of the writer on \<open>rw\<close>.
\<close>

definition Probe ::
  "('s \<Rightarrow> error option \<times> 's) \<Rightarrow> 's Prober \<Rightarrow> 's \<Rightarrow> (bool \<times> error option) \<times> 's" where
  "Probe flush p s =
     (case writer_loop p (NumRequests p) 0 s of
        (writes, s1) \<Rightarrow>
          (case flush s1 of
             (Some e, s2) \<Rightarrow> ((False, Some e), s2)
           | (None, s2) \<Rightarrow> reader_loop p writes True s2))"

text \<open>\<^verbatim>\<open>Supported(rw, host)\<close>, which panics on an empty host.\<close>

definition Supported :: "Conn \<Rightarrow> string \<Rightarrow> (bool \<times> error option) \<times> Conn" where
  "Supported rw host =
     (if host = [] then ((False, Some (Panic ''host is empty'')), rw)
      else Probe Flush (optionsProber host) rw)"

section \<open>Properties of the reader\<close>

lemma IndexByte_None: "c \<notin> set xs \<Longrightarrow> IndexByte xs c = None"
  by (induction xs) auto

lemma IndexByte_append: "c \<notin> set xs \<Longrightarrow> IndexByte (xs @ c # ys) c = Some (length xs)"
  by (induction xs) auto

lemma IndexByte_SomeD:
  "IndexByte s c = Some i \<Longrightarrow> i < length s \<and> s ! i = c \<and> c \<notin> set (take i s)"
proof (induction s arbitrary: i)
  case Nil then show ?case by simp
next
  case (Cons x xs)
  then show ?case by (auto split: if_splits)
qed

lemma IndexByte_NoneD: "IndexByte s c = None \<Longrightarrow> c \<notin> set s"
  by (induction s) (auto split: if_splits)

lemma ReadString_line:
  "LF \<notin> set l \<Longrightarrow> ReadString LF (l @ LF # rest) = ((l @ [LF], None), rest)"
  by (simp add: ReadString_def IndexByte_append)

lemma ReadString_EOF: "LF \<notin> set r \<Longrightarrow> ReadString LF r = ((r, Some EOF), [])"
  by (simp add: ReadString_def IndexByte_None)

lemma ReadSlice_line:
  assumes "LF \<notin> set l" "length l < defaultBufSize"
  shows "ReadSlice LF (l @ LF # rest) = ((l @ [LF], None), rest)"
proof -
  have "take defaultBufSize (l @ LF # rest) = l @ LF # take (defaultBufSize - Suc (length l)) rest"
    using assms(2) by (simp add: take_Cons' )
  then show ?thesis using assms(1) by (simp add: ReadSlice_def IndexByte_append)
qed

lemma ReadSlice_EOF:
  "LF \<notin> set r \<Longrightarrow> length r < defaultBufSize \<Longrightarrow> ReadSlice LF r = ((r, Some EOF), [])"
  by (simp add: ReadSlice_def IndexByte_None)

lemma ReadSlice_full:
  "LF \<notin> set (take defaultBufSize r) \<Longrightarrow> defaultBufSize \<le> length r \<Longrightarrow>
   ReadSlice LF r = ((take defaultBufSize r, Some ErrBufferFull), drop defaultBufSize r)"
  by (simp add: ReadSlice_def IndexByte_None)


section \<open>Properties of the scanner\<close>

lemma space_len_ascii:
  "(of_char c :: nat) < 128 \<Longrightarrow>
   space_len (c # s) = (if (9 \<le> (of_char c :: nat) \<and> (of_char c :: nat) \<le> 13) \<or> (of_char c :: nat) = 32 then 1 else 0)"
  by (simp add: space_len_def split: list.splits)

lemma is_digit_code: "is_digit c \<Longrightarrow> 48 \<le> (of_char c :: nat) \<and> (of_char c :: nat) \<le> 57"
  by (auto simp: is_digit_def)

lemma space_len_digit: "is_digit c \<Longrightarrow> space_len (c # s) = 0"
  using is_digit_code [of c] by (simp add: space_len_ascii)


definition is_ows :: "char \<Rightarrow> bool" where
  "is_ows c \<longleftrightarrow> c = CHR '' '' \<or> c = CHR 0x09"

lemma space_len_ows: "is_ows c \<Longrightarrow> space_len (c # s) = 1"
  by (auto simp: is_ows_def space_len_ascii)

lemma space_len_CR: "space_len (CR # s) = 1"
  by (simp add: space_len_ascii)

lemma space_len_LF: "space_len (LF # s) = 1"
  by (simp add: space_len_ascii)

lemma skip_blanks_ows: "\<forall>c\<in>set ws. is_ows c \<Longrightarrow> skip_blanks (ws @ s) = skip_blanks s"
proof (induction ws)
  case Nil then show ?case by simp
next
  case (Cons w ws)
  then have "is_ows w" by simp
  then have "space_len (w # ws @ s) = 1" "w \<noteq> LF"
    by (auto simp: space_len_ows is_ows_def)
  then show ?case using Cons by simp
qed

lemma SkipSpace_ows: "\<forall>c\<in>set ws. is_ows c \<Longrightarrow> SkipSpace (ws @ s) = SkipSpace s"
proof (induction ws)
  case Nil then show ?case by simp
next
  case (Cons w ws)
  then have "is_ows w" by simp
  then have "space_len (w # ws @ s) = 1" "w \<noteq> LF"
    by (auto simp: space_len_ows is_ows_def)
  then show ?case using Cons by simp
qed

lemma is_digit_not_LF: "is_digit c \<Longrightarrow> c \<noteq> LF"
  by (auto simp: is_digit_def)

lemma skip_blanks_digit: "is_digit c \<Longrightarrow> skip_blanks (c # s) = c # s"
  by (simp add: space_len_digit)

lemma SkipSpace_digit: "is_digit c \<Longrightarrow> SkipSpace (c # s) = Inr (c # s)"
  by (simp add: space_len_digit is_digit_not_LF)

lemma digit_val_range: "is_digit c \<Longrightarrow> 0 \<le> digit_val c \<and> digit_val c \<le> 9"
  using is_digit_code [of c] by (simp add: digit_val_def)

lemma foldl_dec_nonneg:
  "0 \<le> acc \<Longrightarrow> \<forall>c\<in>set ds. is_digit c \<Longrightarrow>
   0 \<le> foldl (\<lambda>acc c. 10 * acc + digit_val c) acc ds"
proof (induction ds arbitrary: acc)
  case Nil then show ?case by simp
next
  case (Cons d ds)
  have "0 \<le> 10 * acc + digit_val d"
    using Cons.prems digit_val_range [of d] by simp
  then show ?case using Cons by simp
qed

lemma dec_value_nonneg: "\<forall>c\<in>set ds. is_digit c \<Longrightarrow> 0 \<le> dec_value ds"
  by (simp add: dec_value_def foldl_dec_nonneg)


lemma takeWhile_digits:
  assumes "\<forall>c\<in>set ds. is_digit c" "rest = [] \<or> \<not> is_digit (hd rest)"
  shows "takeWhile is_digit (ds @ rest) = ds" "dropWhile is_digit (ds @ rest) = rest"
proof -
  have r: "takeWhile is_digit rest = []" "dropWhile is_digit rest = rest"
    using assms(2) by (cases rest; simp)+
  show "takeWhile is_digit (ds @ rest) = ds"
    using assms(1) r by (simp add: takeWhile_append2)
  show "dropWhile is_digit (ds @ rest) = rest"
    using assms(1) r by (simp add: dropWhile_append2)
qed

lemma scanInt_digits:
  assumes "ds \<noteq> []" "\<forall>c\<in>set ds. is_digit c" "rest = [] \<or> \<not> is_digit (hd rest)"
    "dec_value ds < 2 ^ 63"
  shows "scanInt (ds @ rest) = Inr (dec_value ds, rest)"
proof -
  obtain d ds' where ds: "ds = d # ds'" using assms(1) by (cases ds) auto
  then have d: "is_digit d" using assms(2) by simp
  have sk: "SkipSpace (ds @ rest) = Inr (ds @ rest)"
    by (simp only: ds append_Cons SkipSpace_digit [OF d])
  have sign: "d \<noteq> CHR ''+''" "d \<noteq> CHR ''-''" using d by (auto simp: is_digit_def)
  have tw: "takeWhile is_digit (ds @ rest) = ds" "dropWhile is_digit (ds @ rest) = rest"
    using takeWhile_digits [OF assms(2,3)] by simp_all
  have hd: "hd (ds @ rest) = d" "ds @ rest \<noteq> []" by (simp_all add: ds)
  have nn: "0 \<le> dec_value ds" by (rule dec_value_nonneg [OF assms(2)])
  have rng: "\<not> (dec_value ds < - (2 ^ 63) \<or> 2 ^ 63 \<le> dec_value ds)"
    using nn assms(4) by simp
  show ?thesis
    unfolding scanInt_def sk
    by (simp only: sum.case hd sign d tw rng Let_def if_False simp_thms)
qed

section \<open>Status lines\<close>

definition status_line :: "string \<Rightarrow> string \<Rightarrow> string" where
  "status_line code reason = ''HTTP/1.1 '' @ code @ CHR '' '' # reason @ crlf"

definition status_code :: "string \<Rightarrow> bool" where
  "status_code code \<longleftrightarrow> length code = 3 \<and> (\<forall>c\<in>set code. is_digit c)"

lemma dec_value_3: "dec_value [a, b, c] = 100 * digit_val a + 10 * digit_val b + digit_val c"
  by (simp add: dec_value_def)

lemma status_code_range: "status_code code \<Longrightarrow> dec_value code < 1000"
proof -
  assume sc: "status_code code"
  then obtain a b c where code: "code = [a, b, c]"
    by (auto simp: status_code_def length_Suc_conv numeral_3_eq_3)
  then have "is_digit a" "is_digit b" "is_digit c" using sc by (simp_all add: status_code_def)
  then show ?thesis
    using digit_val_range [of a] digit_val_range [of b] digit_val_range [of c]
    by (simp add: code dec_value_3)
qed

lemma match_literal_prefix: "match_literal f (f @ s) = Inr s"
  by (induction f) auto

lemma is_digit_not_SP: "\<not> is_digit (CHR '' '')"
  by (simp add: is_digit_def)

lemma Sscanf_status_line:
  assumes "status_code code"
  shows "Sscanf_status (status_line code reason @ rest) = (1, dec_value code, None)"
proof -
  obtain d ds where code: "code = d # ds" using assms by (cases code) (auto simp: status_code_def)
  have dig: "\<forall>c\<in>set code. is_digit c" "code \<noteq> []" using assms code by (auto simp: status_code_def)
  then have d: "is_digit d" by (simp add: code)
  let ?tail = "CHR '' '' # reason @ crlf @ rest"
  have split: "status_line code reason @ rest = ''HTTP/1.1'' @ (CHR '' '' # code @ ?tail)"
    by (simp add: status_line_def)
  have ml: "match_literal ''HTTP/1.1'' (status_line code reason @ rest) = Inr (CHR '' '' # code @ ?tail)"
    unfolding split by (rule match_literal_prefix)
  have sb: "skip_blanks (CHR '' '' # code @ ?tail) = code @ ?tail"
    using skip_blanks_ows [of "[CHR '' '']" "code @ ?tail"] skip_blanks_digit [OF d, of "ds @ ?tail"]
    by (simp only: is_ows_def code append_Cons append_Nil list.set ball_simps simp_thms)
  have ms: "match_space (CHR '' '' # code @ ?tail) = Inr (code @ ?tail)"
    by (simp add: match_space_def space_len_ascii sb del: skip_blanks.simps)
  have ss: "SkipSpace (code @ ?tail) = Inr (code @ ?tail)"
    by (simp only: code append_Cons SkipSpace_digit [OF d])
  have lt: "dec_value code < 2 ^ 63" using status_code_range [OF assms] by simp
  have si: "scanInt (code @ ?tail) = Inr (dec_value code, ?tail)"
    by (rule scanInt_digits [OF dig(2) dig(1) _ lt]) (simp add: is_digit_not_SP)
  show ?thesis
    unfolding Sscanf_status_def ml by (simp only: sum.case ms ss si prod.case)
qed

section \<open>Header lines\<close>

declare header_loop.simps [simp del]
declare Write.simps [simp del]
declare writer_loop.simps [simp del]

definition is_line :: "string \<Rightarrow> bool" where
  "is_line l \<longleftrightarrow> l \<noteq> [] \<and> last l = LF \<and> LF \<notin> set (butlast l)"

definition names_length :: "string \<Rightarrow> bool" where
  "names_length l \<longleftrightarrow> HasPrefix (ToLower l) ''content-length:''"

lemma is_lineE:
  assumes "is_line l"
  obtains b where "l = b @ [LF]" "LF \<notin> set b"
  using assms unfolding is_line_def by (metis append_butlast_last_id)

lemma ReadString_is_line:
  assumes "is_line l"
  shows "ReadString LF (l @ rest) = ((l, None), rest)"
proof -
  from assms obtain b where b: "l = b @ [LF]" "LF \<notin> set b" by (rule is_lineE)
  show ?thesis using ReadString_line [OF b(2), of rest] by (simp add: b(1))
qed

lemma ReadSlice_is_line:
  assumes "is_line l" "length l \<le> defaultBufSize"
  shows "ReadSlice LF (l @ rest) = ((l, None), rest)"
proof -
  from assms(1) obtain b where b: "l = b @ [LF]" "LF \<notin> set b" by (rule is_lineE)
  have "length b < defaultBufSize" using assms(2) by (simp add: b(1))
  then show ?thesis using ReadSlice_line [OF b(2), of rest] by (simp add: b(1))
qed

lemma lower_byte_c: "lower_byte x = CHR ''c'' \<Longrightarrow> x = CHR ''C'' \<or> x = CHR ''c''"
proof (cases "(65::nat) \<le> of_char x \<and> of_char x \<le> (90::nat)")
  case True
  assume "lower_byte x = CHR ''c''"
  then have "char_of (of_char x + (32::nat)) = CHR ''c''" using True by (simp add: lower_byte_def)
  then have "(of_char (char_of (of_char x + (32::nat)) :: char) :: nat) = of_char (CHR ''c'')" by simp
  then have "(of_char x + 32) mod 256 = (99::nat)" by simp
  then have "of_char x = (67::nat)" using True by simp
  then have "(of_char x :: nat) = of_char (CHR ''C'')" by simp
  then have "x = CHR ''C''" by (simp only: of_char_eq_iff)
  then show ?thesis by simp
next
  case False
  assume "lower_byte x = CHR ''c''"
  then show ?thesis using False by (simp add: lower_byte_def)
qed

lemma names_length_first:
  assumes "names_length l"
  shows "l ! 0 = CHR ''C'' \<or> l ! 0 = CHR ''c''"
proof -
  from assms obtain x xs where l: "l = x # xs"
    by (cases l) (auto simp: names_length_def HasPrefix_def ToLower_def)
  with assms have "lower_byte x = CHR ''c''"
    by (simp add: names_length_def HasPrefix_def ToLower_def)
  then show ?thesis using lower_byte_c l by simp
qed

lemma names_length_not_blank: "names_length l \<Longrightarrow> l \<noteq> crlf"
  by (auto simp: names_length_def HasPrefix_def ToLower_def crlf_def)

lemma blank_test: "(length l = 2 \<and> l ! 0 = CR \<and> l ! 1 = LF) \<longleftrightarrow> l = crlf"
  by (auto simp: crlf_def length_Suc_conv numeral_2_eq_2)

lemma header_loop_blank: "header_loop cl f (crlf @ rest) = (Inr cl, rest)"
proof -
  have "is_line crlf" "length crlf \<le> defaultBufSize"
    by (simp_all add: is_line_def crlf_def defaultBufSize_def)
  then have "ReadSlice LF (crlf @ rest) = ((crlf, None), rest)" by (rule ReadSlice_is_line)
  then show ?thesis
    by (subst header_loop.simps) (simp add: blank_test del: One_nat_def)
qed

lemma header_loop_skip:
  assumes "is_line l" "length l \<le> defaultBufSize" "l \<noteq> crlf" "f \<or> \<not> names_length l"
  shows "header_loop cl f (l @ rest) = header_loop cl f rest"
proof -
  have rs: "ReadSlice LF (l @ rest) = ((l, None), rest)"
    using assms(1,2) by (rule ReadSlice_is_line)
  have nb: "\<not> (length l = 2 \<and> l ! 0 = CR \<and> l ! 1 = LF)"
    using assms(3) blank_test by blast
  show ?thesis
  proof (cases "f \<or> (l ! 0 \<noteq> CHR ''C'' \<and> l ! 0 \<noteq> CHR ''c'')")
    case True
    then show ?thesis
      by (subst header_loop.simps) (simp only: rs prod.case option.case nb if_False if_True)
  next
    case False
    then have "\<not> HasPrefix (ToLower l) ''content-length:''"
      using assms(4) by (simp add: names_length_def)
    then show ?thesis using False
      by (subst header_loop.simps)
         (simp only: rs prod.case option.case nb if_False if_True Let_def)
  qed
qed

lemma header_loop_length:
  assumes "is_line l" "length l \<le> defaultBufSize" "names_length l"
  shows "header_loop cl False (l @ rest) =
     (case Sscanf_length (drop 15 (ToLower l)) of
        (n, v, Some e) \<Rightarrow> (Inl e, rest)
      | (n, v, None) \<Rightarrow>
          if n \<noteq> 1 then (Inl (ErrorString ''no content length''), rest)
          else header_loop v True rest)"
proof -
  have rs: "ReadSlice LF (l @ rest) = ((l, None), rest)"
    using assms(1,2) by (rule ReadSlice_is_line)
  have nb: "\<not> (length l = 2 \<and> l ! 0 = CR \<and> l ! 1 = LF)"
    using names_length_not_blank [OF assms(3)] blank_test by blast
  have c: "\<not> (False \<or> (l ! 0 \<noteq> CHR ''C'' \<and> l ! 0 \<noteq> CHR ''c''))"
    using names_length_first [OF assms(3)] by simp
  have hp: "HasPrefix (ToLower l) ''content-length:''"
    using assms(3) by (simp add: names_length_def)
  have len: "length ''content-length:'' = 15" by simp
  show ?thesis
    by (subst header_loop.simps)
       (simp only: rs prod.case option.case nb c hp len if_False if_True Let_def)
qed

section \<open>Header fields\<close>

definition render_field :: "string \<times> string \<Rightarrow> string" where
  "render_field f = fst f @ CHR '':'' # snd f @ crlf"

definition field :: "string \<times> string \<Rightarrow> bool" where
  "field f \<longleftrightarrow> fst f \<noteq> [] \<and> CHR '':'' \<notin> set (fst f) \<and> LF \<notin> set (fst f) \<and> LF \<notin> set (snd f)"

definition fits :: "string \<times> string \<Rightarrow> bool" where
  "fits f \<longleftrightarrow> length (render_field f) \<le> defaultBufSize"

definition length_name :: "string \<Rightarrow> bool" where
  "length_name n \<longleftrightarrow> ToLower n = ''content-length''"

lemma field_is_line: "field f \<Longrightarrow> is_line (render_field f)"
  by (simp add: field_def render_field_def is_line_def crlf_def butlast_append)

lemma field_not_blank: "field f \<Longrightarrow> render_field f \<noteq> crlf"
  by (cases "fst f") (auto simp: field_def render_field_def crlf_def)

lemma lower_byte_colon: "lower_byte x = CHR '':'' \<Longrightarrow> x = CHR '':''"
proof (cases "(65::nat) \<le> of_char x \<and> of_char x \<le> (90::nat)")
  case True
  assume "lower_byte x = CHR '':''"
  then have "char_of (of_char x + (32::nat)) = CHR '':''" using True by (simp add: lower_byte_def)
  then have "(of_char (char_of (of_char x + (32::nat)) :: char) :: nat) = of_char (CHR '':'')" by simp
  then have "(of_char x + 32) mod 256 = (58::nat)" by simp
  then show ?thesis using True by simp
next
  case False
  assume "lower_byte x = CHR '':''"
  then show ?thesis using False by (simp add: lower_byte_def)
qed

lemma ToLower_no_colon: "CHR '':'' \<notin> set n \<Longrightarrow> CHR '':'' \<notin> set (ToLower n)"
proof
  assume n: "CHR '':'' \<notin> set n" and "CHR '':'' \<in> set (ToLower n)"
  then obtain x where "x \<in> set n" "lower_byte x = CHR '':''" by (auto simp: ToLower_def)
  then show False using lower_byte_colon [of x] n by simp
qed

lemma ToLower_append: "ToLower (a @ b) = ToLower a @ ToLower b"
  by (simp add: ToLower_def)

lemma ToLower_colon: "ToLower (CHR '':'' # s) = CHR '':'' # ToLower s"
  by (simp add: ToLower_def lower_byte_def)

lemma prefix_name:
  assumes "c \<notin> set m" "c \<notin> set k"
  shows "(length k < length (m @ c # w) \<and> take (Suc (length k)) (m @ c # w) = k @ [c]) \<longleftrightarrow> m = k"
proof
  assume "m = k"
  then show "length k < length (m @ c # w) \<and> take (Suc (length k)) (m @ c # w) = k @ [c]" by simp
next
  assume a: "length k < length (m @ c # w) \<and> take (Suc (length k)) (m @ c # w) = k @ [c]"
  then have eq: "take (Suc (length k)) (m @ c # w) = k @ [c]" by simp
  have nth: "(m @ c # w) ! i = (k @ [c]) ! i" if "i < Suc (length k)" for i
    using that eq by (metis nth_take)
  consider "length m < length k" | "length m = length k" | "length k < length m" by linarith
  then show "m = k"
  proof cases
    case 1
    then have "(m @ c # w) ! length m = (k @ [c]) ! length m" using nth [of "length m"] by simp
    then have "c = k ! length m" using 1 by (simp add: nth_append)
    then show ?thesis using assms(2) 1 by (metis nth_mem)
  next
    case 2
    then show ?thesis using eq by simp
  next
    case 3
    then have "(m @ c # w) ! length k = (k @ [c]) ! length k" using nth [of "length k"] by simp
    then have "m ! length k = c" using 3 by (simp add: nth_append)
    then show ?thesis using assms(1) 3 by (metis nth_mem)
  qed
qed

lemma names_length_field:
  assumes "CHR '':'' \<notin> set (fst f)"
  shows "names_length (render_field f) \<longleftrightarrow> length_name (fst f)"
proof -
  have low: "ToLower (render_field f) = ToLower (fst f) @ CHR '':'' # ToLower (snd f @ crlf)"
    by (simp add: render_field_def ToLower_append ToLower_colon)
  have k: "CHR '':'' \<notin> set ''content-length''" by simp
  have "HasPrefix (ToLower (fst f) @ CHR '':'' # ToLower (snd f @ crlf)) (''content-length'' @ [CHR '':''])
        \<longleftrightarrow> ToLower (fst f) = ''content-length''"
    unfolding HasPrefix_def
    using prefix_name [OF ToLower_no_colon [OF assms] k, of "ToLower (snd f @ crlf)"]
    by (simp add: Suc_le_eq del: take_Suc_Cons)
  then show ?thesis
    by (simp add: names_length_def length_name_def low)
qed

lemma length_field_value:
  assumes "length_name (fst f)"
  shows "drop 15 (ToLower (render_field f)) = ToLower (snd f @ crlf)"
proof -
  have "length (ToLower (fst f)) = 14" using assms by (simp add: length_name_def)
  then show ?thesis
    by (simp add: render_field_def ToLower_append ToLower_colon)
qed

section \<open>The header loop on fields\<close>

lemma header_loop_field_skip:
  assumes "field f" "fits f" "found \<or> \<not> length_name (fst f)"
  shows "header_loop cl found (render_field f @ rest) = header_loop cl found rest"
proof -
  have "found \<or> \<not> names_length (render_field f)"
    using assms(1,3) by (simp add: names_length_field field_def)
  then show ?thesis
    using assms(1,2) by (intro header_loop_skip field_is_line field_not_blank) (simp_all add: fits_def)
qed

lemma header_loop_fields_skip:
  assumes "\<forall>f\<in>set fs. field f \<and> fits f \<and> (found \<or> \<not> length_name (fst f))"
  shows "header_loop cl found (concat (map render_field fs) @ rest) = header_loop cl found rest"
  using assms
proof (induction fs)
  case Nil
  then show ?case by simp
next
  case (Cons f fs)
  then show ?case by (simp add: header_loop_field_skip)
qed

lemma header_loop_field_length:
  assumes "field f" "fits f" "length_name (fst f)"
  shows "header_loop cl False (render_field f @ rest) =
     (case Sscanf_length (ToLower (snd f @ crlf)) of
        (n, v, Some e) \<Rightarrow> (Inl e, rest)
      | (n, v, None) \<Rightarrow>
          if n \<noteq> 1 then (Inl (ErrorString ''no content length''), rest)
          else header_loop v True rest)"
proof -
  have nl: "names_length (render_field f)"
    using assms(1,3) by (simp add: names_length_field field_def)
  have fit: "length (render_field f) \<le> defaultBufSize" using assms(2) by (simp add: fits_def)
  show ?thesis
    using header_loop_length [OF field_is_line [OF assms(1)] fit nl, of cl rest]
    by (simp only: length_field_value [OF assms(3)])
qed

lemma Sscanf_length_n: "Sscanf_length s = (n, v, None) \<Longrightarrow> n = 1"
  by (auto simp: Sscanf_length_def split: sum.splits prod.splits)

lemma Sscanf_status_n: "Sscanf_status s = (n, v, None) \<Longrightarrow> n = 1"
  by (auto simp: Sscanf_status_def split: sum.splits prod.splits)

lemma status_line_is_line:
  assumes "status_code code" "LF \<notin> set reason"
  shows "is_line (status_line code reason)"
proof -
  have "LF \<notin> set code" using assms(1) is_digit_not_LF by (auto simp: status_code_def)
  then show ?thesis using assms(2)
    by (simp add: is_line_def status_line_def crlf_def butlast_append)
qed

text \<open>After a status line the parser runs the header loop and discards the body.\<close>

lemma parseStatus_status_line:
  assumes "status_code code" "LF \<notin> set reason"
  shows "parseStatus (status_line code reason @ r) =
     (case header_loop 0 False r of
        (Inl e, r2) \<Rightarrow> (Inl e, r2)
      | (Inr contentLength, r2) \<Rightarrow>
          (case Discard contentLength r2 of
             ((d, Some e), r3) \<Rightarrow> (Inl e, r3)
           | ((d, None), r3) \<Rightarrow> (Inr (dec_value code), r3)))"
proof -
  have rs: "ReadString LF (status_line code reason @ r) = ((status_line code reason, None), r)"
    using status_line_is_line [OF assms] by (rule ReadString_is_line)
  have sc: "Sscanf_status (status_line code reason) = (1, dec_value code, None)"
    using Sscanf_status_line [OF assms(1), of reason "[]"] by simp
  show ?thesis
    unfolding parseStatus_def rs by (simp only: prod.case option.case sc simp_thms if_False)
qed

section \<open>The value of Content-Length\<close>

definition field_length :: "string \<Rightarrow> nat option" where
  "field_length v =
     (let t = dropWhile is_ows v;
          ds = takeWhile is_digit t;
          r = dropWhile is_digit t
      in if ds \<noteq> [] \<and> list_all is_ows r then Some (nat (dec_value ds)) else None)"

lemma lower_byte_digit: "is_digit c \<Longrightarrow> lower_byte c = c"
  using is_digit_code [of c] by (simp add: lower_byte_def)

lemma lower_byte_ows: "is_ows c \<Longrightarrow> lower_byte c = c"
  by (auto simp: lower_byte_def is_ows_def)

lemma ToLower_crlf: "ToLower crlf = crlf"
  by (simp add: ToLower_def crlf_def lower_byte_def)

lemma ToLower_id: "\<forall>c\<in>set s. lower_byte c = c \<Longrightarrow> ToLower s = s"
  by (simp add: ToLower_def map_idI)

lemma match_newline_ows_crlf:
  assumes "\<forall>c\<in>set ws. is_ows c"
  shows "match_newline (ws @ crlf) = Inr []"
proof -
  have "skip_blanks (ws @ crlf) = skip_blanks crlf" using assms by (rule skip_blanks_ows)
  also have "\<dots> = [LF]" by (simp add: crlf_def space_len_ascii)
  finally show ?thesis by (simp add: match_newline_def)
qed

lemma is_ows_not_digit: "is_ows c \<Longrightarrow> \<not> is_digit c"
  by (auto simp: is_ows_def is_digit_def)

lemma Sscanf_length_shape:
  assumes "\<forall>c\<in>set ws1. is_ows c" "ds \<noteq> []" "\<forall>c\<in>set ds. is_digit c" "\<forall>c\<in>set ws2. is_ows c"
    "dec_value ds < 2 ^ 63"
  shows "Sscanf_length (ws1 @ ds @ ws2 @ crlf) = (1, dec_value ds, None)"
proof -
  obtain d ds' where ds: "ds = d # ds'" using assms(2) by (cases ds) auto
  then have d: "is_digit d" using assms(3) by simp
  have "SkipSpace (ws1 @ ds @ ws2 @ crlf) = SkipSpace (ds @ ws2 @ crlf)"
    using assms(1) by (rule SkipSpace_ows)
  also have "\<dots> = Inr (ds @ ws2 @ crlf)"
    by (simp only: ds append_Cons SkipSpace_digit [OF d])
  finally have sk: "SkipSpace (ws1 @ ds @ ws2 @ crlf) = Inr (ds @ ws2 @ crlf)" .
  have nd: "ws2 @ crlf = [] \<or> \<not> is_digit (hd (ws2 @ crlf))"
  proof (cases ws2)
    case Nil
    then show ?thesis by (simp add: crlf_def is_digit_def)
  next
    case (Cons a list)
    then have "is_ows a" using assms(4) by simp
    then show ?thesis using Cons by (simp add: is_ows_not_digit)
  qed
  have si: "scanInt (ds @ ws2 @ crlf) = Inr (dec_value ds, ws2 @ crlf)"
    by (rule scanInt_digits [OF assms(2,3) nd assms(5)])
  show ?thesis
    unfolding Sscanf_length_def sk
    by (simp only: sum.case si prod.case match_newline_ows_crlf [OF assms(4)])
qed

lemma field_length_shape:
  assumes "field_length v = Some k"
  obtains ws1 ds ws2 where "v = ws1 @ ds @ ws2" "\<forall>c\<in>set ws1. is_ows c" "ds \<noteq> []"
    "\<forall>c\<in>set ds. is_digit c" "\<forall>c\<in>set ws2. is_ows c" "k = nat (dec_value ds)"
proof -
  let ?t = "dropWhile is_ows v"
  let ?ds = "takeWhile is_digit ?t"
  let ?r = "dropWhile is_digit ?t"
  from assms have c: "?ds \<noteq> []" "list_all is_ows ?r" "k = nat (dec_value ?ds)"
    by (auto simp: field_length_def Let_def split: if_splits)
  have v: "v = takeWhile is_ows v @ ?ds @ ?r" by simp
  have w1: "\<forall>c\<in>set (takeWhile is_ows v). is_ows c" by (auto dest: set_takeWhileD)
  have dd: "\<forall>c\<in>set ?ds. is_digit c" by (auto dest: set_takeWhileD)
  have w2: "\<forall>c\<in>set ?r. is_ows c" using c(2) by (simp add: list_all_iff)
  show ?thesis by (rule that [OF v w1 c(1) dd w2 c(3)])
qed

lemma Sscanf_length_value:
  assumes "field_length v = Some k" "k < 2 ^ 63"
  shows "Sscanf_length (ToLower (v @ crlf)) = (1, int k, None)"
proof -
  from assms(1) obtain ws1 ds ws2 where s: "v = ws1 @ ds @ ws2" "\<forall>c\<in>set ws1. is_ows c"
    "ds \<noteq> []" "\<forall>c\<in>set ds. is_digit c" "\<forall>c\<in>set ws2. is_ows c" "k = nat (dec_value ds)"
    by (rule field_length_shape)
  have nn: "0 \<le> dec_value ds" using s(4) by (rule dec_value_nonneg)
  then have k: "int k = dec_value ds" using s(6) by simp
  have "int k < 2 ^ 63" using assms(2) by (metis of_nat_less_iff of_nat_numeral of_nat_power)
  then have lt: "dec_value ds < 2 ^ 63" using k by simp
  have "\<forall>c\<in>set v. lower_byte c = c"
    using s(2,4,5) by (auto simp: s(1) lower_byte_digit lower_byte_ows)
  then have "ToLower (v @ crlf) = v @ crlf"
    by (simp add: ToLower_append ToLower_crlf ToLower_id)
  then show ?thesis
    using Sscanf_length_shape [OF s(2,3,4,5) lt] by (simp add: s(1) k)
qed

section \<open>Responses\<close>

record response =
  resp_code :: string
  resp_reason :: string
  resp_fields :: "(string \<times> string) list"
  resp_body :: string

definition render :: "response \<Rightarrow> string" where
  "render r =
     status_line (resp_code r) (resp_reason r) @ concat (map render_field (resp_fields r))
       @ crlf @ resp_body r"

fun declared_length :: "(string \<times> string) list \<Rightarrow> string option" where
  "declared_length [] = None"
| "declared_length (f # fs) = (if length_name (fst f) then Some (snd f) else declared_length fs)"

definition http_response :: "response \<Rightarrow> bool" where
  "http_response r \<longleftrightarrow>
     status_code (resp_code r) \<and> LF \<notin> set (resp_reason r) \<and> list_all field (resp_fields r) \<and>
     (case declared_length (resp_fields r) of
        None \<Rightarrow> False
      | Some v \<Rightarrow> field_length v = Some (length (resp_body r)))"

definition short_lines :: "response \<Rightarrow> bool" where
  "short_lines r \<longleftrightarrow> list_all fits (resp_fields r)"

lemma declared_length_split:
  assumes "declared_length fs = Some v"
  obtains pre nm post where "fs = pre @ (nm, v) # post" "\<forall>f\<in>set pre. \<not> length_name (fst f)"
    "length_name nm"
  using assms
proof (induction fs arbitrary: thesis)
  case Nil
  then show ?case by simp
next
  case (Cons f fs)
  show ?case
  proof (cases "length_name (fst f)")
    case True
    then have "f = (fst f, v)" using Cons.prems(2) by (simp add: prod_eq_iff)
    then have "f # fs = [] @ (fst f, v) # fs" by simp
    then show ?thesis using Cons.prems(1) [of "[]" "fst f" fs] True by simp
  next
    case False
    then have "declared_length fs = Some v" using Cons.prems(2) by simp
    then obtain pre nm post where p: "fs = pre @ (nm, v) # post"
      "\<forall>f\<in>set pre. \<not> length_name (fst f)" "length_name nm"
      using Cons.IH by blast
    show ?thesis
      using Cons.prems(1) [of "f # pre" nm post] p False by simp
  qed
qed

lemma parseStatus_fields:
  assumes "status_code code" "LF \<notin> set reason"
    and "\<forall>f\<in>set pre. field f \<and> fits f \<and> \<not> length_name (fst f)"
    and "field (nm, v)" "fits (nm, v)" "length_name nm"
    and "\<forall>f\<in>set post. field f \<and> fits f"
  shows "parseStatus (status_line code reason @ concat (map render_field (pre @ (nm, v) # post))
           @ crlf @ rest) =
     (case Sscanf_length (ToLower (v @ crlf)) of
        (n, k, Some e) \<Rightarrow> (Inl e, concat (map render_field post) @ crlf @ rest)
      | (n, k, None) \<Rightarrow>
          (case Discard k rest of
             ((d, Some e), r) \<Rightarrow> (Inl e, r)
           | ((d, None), r) \<Rightarrow> (Inr (dec_value code), r)))"
proof -
  let ?tail = "concat (map render_field post) @ crlf @ rest"
  have pre: "\<forall>f\<in>set pre. field f \<and> fits f \<and> (False \<or> \<not> length_name (fst f))"
    using assms(3) by simp
  have post: "\<forall>f\<in>set post. field f \<and> fits f \<and> (True \<or> \<not> length_name (fst f))"
    using assms(7) by simp
  have found: "header_loop k True ?tail = (Inr k, rest)" for k
    using header_loop_fields_skip [OF post, of k "crlf @ rest"] by (simp add: header_loop_blank)
  have hl0: "header_loop 0 False (concat (map render_field (pre @ (nm, v) # post)) @ crlf @ rest)
      = header_loop 0 False (render_field (nm, v) @ ?tail)"
    using header_loop_fields_skip [OF pre, of 0 "render_field (nm, v) @ ?tail"] by simp
  obtain n k e where s: "Sscanf_length (ToLower (v @ crlf)) = (n, k, e)"
    using prod_cases3 by blast
  have ln: "length_name (fst (nm, v))" using assms(6) by simp
  have hl1: "header_loop 0 False (render_field (nm, v) @ ?tail) =
     (case (n, k, e) of
        (n, v, Some e) \<Rightarrow> (Inl e, ?tail)
      | (n, v, None) \<Rightarrow>
          if n \<noteq> 1 then (Inl (ErrorString ''no content length''), ?tail)
          else header_loop v True ?tail)"
    by (simp only: header_loop_field_length [OF assms(4,5) ln] snd_conv s)
  show ?thesis
  proof (cases e)
    case None
    then have "n = 1" using s Sscanf_length_n by blast
    then show ?thesis
      unfolding parseStatus_status_line [OF assms(1,2)] hl0 hl1 s None
      by (simp add: found)
  next
    case (Some err)
    then show ?thesis
      unfolding parseStatus_status_line [OF assms(1,2)] hl0 hl1 s Some
      by simp
  qed
qed

lemma Discard_body: "Discard (int (length b)) (b @ rest) = ((int (length b), None), rest)"
  by (simp add: Discard_def)

lemma parseStatus_response:
  assumes "http_response r" "short_lines r" "length (resp_body r) < 2 ^ 63"
  shows "parseStatus (render r @ rest) = (Inr (dec_value (resp_code r)), rest)"
proof -
  from assms(1) obtain v where v: "declared_length (resp_fields r) = Some v"
    "field_length v = Some (length (resp_body r))"
    by (auto simp: http_response_def split: option.splits)
  from v(1) obtain pre nm post where f: "resp_fields r = pre @ (nm, v) # post"
    "\<forall>f\<in>set pre. \<not> length_name (fst f)" "length_name nm"
    by (rule declared_length_split)
  have all: "\<forall>f\<in>set (resp_fields r). field f \<and> fits f"
    using assms(1,2) by (simp add: http_response_def short_lines_def list_all_iff)
  have pre: "\<forall>f\<in>set pre. field f \<and> fits f \<and> \<not> length_name (fst f)"
    using all f(1,2) by simp
  have nm: "field (nm, v)" "fits (nm, v)" using all f(1) by simp_all
  have post: "\<forall>f\<in>set post. field f \<and> fits f" using all f(1) by simp
  have sc: "status_code (resp_code r)" "LF \<notin> set (resp_reason r)"
    using assms(1) by (simp_all add: http_response_def)
  have sl: "Sscanf_length (ToLower (v @ crlf)) = (1, int (length (resp_body r)), None)"
    using v(2) assms(3) by (rule Sscanf_length_value)
  have "parseStatus (render r @ rest) =
     parseStatus (status_line (resp_code r) (resp_reason r)
        @ concat (map render_field (pre @ (nm, v) # post)) @ crlf @ (resp_body r @ rest))"
    by (simp add: render_def f(1))
  also have "\<dots> = (Inr (dec_value (resp_code r)), rest)"
    unfolding parseStatus_fields [OF sc pre nm f(3) post] sl
    by (simp add: Discard_body)
  finally show ?thesis .
qed

section \<open>Claim C1: the round trip\<close>

definition long_response :: response where
  "long_response =
     \<lparr>resp_code = ''200'', resp_reason = ''OK'',
      resp_fields = [(''X-Pad'', replicate 4100 (CHR ''a'')), (''Content-Length'', '' 0'')],
      resp_body = ''''\<rparr>"

definition bad_request :: response where
  "bad_request =
     \<lparr>resp_code = ''400'', resp_reason = ''Bad Request'',
      resp_fields = [(''Server'', '' Apache''), (''CONTENT-length'', '' 4'')],
      resp_body = ''body''\<rparr>"

definition ok_response :: response where
  "ok_response =
     \<lparr>resp_code = ''200'', resp_reason = ''OK'',
      resp_fields = [(''Content-Length'', '' 0'')],
      resp_body = ''''\<rparr>"

lemma length_name_simps:
  "length_name ''Content-Length''" "length_name ''CONTENT-length''"
  "\<not> length_name ''Server''" "\<not> length_name ''X-Pad''"
  by (simp_all add: length_name_def ToLower_def lower_byte_def char_of_def bit_0)

lemmas eval_simps =
  http_response_def short_lines_def status_code_def is_digit_def field_def fits_def
  render_field_def crlf_def defaultBufSize_def length_name_simps field_length_def is_ows_def
  dec_value_def digit_val_def

lemma http_response_long: "http_response long_response"
  by (simp add: long_response_def eval_simps)

lemma http_response_bad: "http_response bad_request" "short_lines bad_request"
  by (simp_all add: bad_request_def eval_simps)

lemma http_response_ok: "http_response ok_response" "short_lines ok_response"
  by (simp_all add: ok_response_def eval_simps)

lemma header_loop_full:
  "LF \<notin> set (take defaultBufSize r) \<Longrightarrow> defaultBufSize \<le> length r \<Longrightarrow>
   header_loop cl f r = (Inl ErrBufferFull, drop defaultBufSize r)"
  by (subst header_loop.simps) (simp add: ReadSlice_full)

text \<open>A first header line that does not fit the reader's buffer stops the parser.\<close>

lemma parseStatus_long_line:
  assumes "status_code code" "LF \<notin> set reason" "LF \<notin> set l" "defaultBufSize \<le> length l"
  shows "parseStatus (status_line code reason @ l @ rest) =
     (Inl ErrBufferFull, drop defaultBufSize (l @ rest))"
proof -
  have "take defaultBufSize (l @ rest) = take defaultBufSize l" using assms(4) by simp
  then have "LF \<notin> set (take defaultBufSize (l @ rest))"
    using assms(3) by (auto dest: in_set_takeD)
  moreover have "defaultBufSize \<le> length (l @ rest)" using assms(4) by simp
  ultimately have "header_loop 0 False (l @ rest) = (Inl ErrBufferFull, drop defaultBufSize (l @ rest))"
    by (rule header_loop_full)
  then show ?thesis
    using parseStatus_status_line [OF assms(1,2), of "l @ rest"] by simp
qed

text \<open>
  C1, as stated, fails: \<open>long_response\<close> is a well-formed response with
  \<^verbatim>\<open>Content-Length: 0\<close> and an empty body, followed at once by the well-formed
  \<open>ok_response\<close>; one of its header lines is longer than the 4096 bytes of the
  reader's buffer, and \<open>parseStatus\<close> returns \<^verbatim>\<open>bufio.ErrBufferFull\<close> instead of the
  status.
\<close>

theorem round_trip_long_line_counterexample:
  "http_response long_response \<and> http_response ok_response \<and>
   parseStatus (render long_response @ render ok_response) =
     (Inl ErrBufferFull,
      replicate 10 (CHR ''a'') @ crlf @ ''Content-Length: 0'' @ crlf @ crlf @ render ok_response)"
proof -
  let ?l = "''X-Pad:'' @ replicate 4100 (CHR ''a'')"
  let ?rest = "crlf @ ''Content-Length: 0'' @ crlf @ crlf @ render ok_response"
  have sc: "status_code ''200''" "LF \<notin> set ''OK''" by (simp_all add: status_code_def is_digit_def)
  have l: "LF \<notin> set ?l" "defaultBufSize \<le> length ?l" by (simp_all add: defaultBufSize_def)
  have "render long_response @ render ok_response = status_line ''200'' ''OK'' @ ?l @ ?rest"
    by (simp add: render_def long_response_def render_field_def)
  moreover have "drop defaultBufSize (?l @ ?rest) = replicate 10 (CHR ''a'') @ ?rest"
    by (simp add: defaultBufSize_def)
  ultimately show ?thesis
    using parseStatus_long_line [OF sc l, of ?rest] http_response_long http_response_ok(1)
    by simp
qed

text \<open>
  C1, amended: for every well-formed HTTP/1.1 response \<open>r1\<close> whose header lines each fit
  the reader's buffer of 4096 bytes, whose first \<^verbatim>\<open>Content-Length\<close> field gives the length
  of its body (a length that fits a 64-bit \<^verbatim>\<open>int\<close>), and which is followed at once by a
  second such response \<open>r2\<close>, \<open>parseStatus\<close> returns the status code of \<open>r1\<close> and leaves
  the reader exactly at the first byte of \<open>r2\<close>; the next call then returns the status
  code of \<open>r2\<close> and leaves the reader at what follows \<open>r2\<close>.
\<close>

theorem parseStatus_round_trip:
  assumes "http_response r1" "short_lines r1" "length (resp_body r1) < 2 ^ 63"
    and "http_response r2" "short_lines r2" "length (resp_body r2) < 2 ^ 63"
  shows "parseStatus (render r1 @ render r2 @ rest) = (Inr (dec_value (resp_code r1)), render r2 @ rest)
       \<and> parseStatus (render r2 @ rest) = (Inr (dec_value (resp_code r2)), rest)"
  using parseStatus_response [OF assms(1,2,3)] parseStatus_response [OF assms(4,5,6)] by simp

theorem parseStatus_round_trip_witness:
  "http_response bad_request \<and> short_lines bad_request \<and> length (resp_body bad_request) < 2 ^ 63 \<and>
   http_response ok_response \<and> short_lines ok_response \<and> length (resp_body ok_response) < 2 ^ 63 \<and>
   parseStatus (render bad_request @ render ok_response @ ''tail'') = (Inr 400, render ok_response @ ''tail'') \<and>
   parseStatus (render ok_response @ ''tail'') = (Inr 200, ''tail'')"
proof -
  have b: "length (resp_body bad_request) < 2 ^ 63" by (simp add: bad_request_def)
  have k: "length (resp_body ok_response) < 2 ^ 63" by (simp add: ok_response_def)
  have c: "dec_value (resp_code bad_request) = 400" "dec_value (resp_code ok_response) = 200"
    by (simp_all add: bad_request_def ok_response_def dec_value_def digit_val_def)
  show ?thesis
    using parseStatus_round_trip [OF http_response_bad b http_response_ok k, of "''tail''"]
      http_response_bad b http_response_ok k
    by (simp only: c simp_thms)
qed

section \<open>Values that are numbers, and values that are not\<close>





















section \<open>Claims C5 and C6: the Content-Length field\<close>

lemma Discard_zero: "Discard 0 r = ((0, None), r)"
  by (simp add: Discard_def)

text \<open>
  C5, as stated, fails: a response without a \<^verbatim>\<open>Content-Length\<close> field whose one header
  line is longer than the reader's buffer is not parsed, and the reader is left inside
  that line, not after the blank line.
\<close>

theorem no_content_length_long_line_counterexample:
  "status_code ''200'' \<and> field (''X-Pad'', replicate 4100 (CHR ''a'')) \<and> \<not> length_name ''X-Pad'' \<and>
   parseStatus (status_line ''200'' ''OK'' @ render_field (''X-Pad'', replicate 4100 (CHR ''a''))
       @ crlf @ ''next'') =
     (Inl ErrBufferFull, replicate 10 (CHR ''a'') @ crlf @ crlf @ ''next'')"
proof -
  let ?l = "''X-Pad:'' @ replicate 4100 (CHR ''a'')"
  let ?rest = "crlf @ crlf @ ''next''"
  have sc: "status_code ''200''" "LF \<notin> set ''OK''" by (simp_all add: status_code_def is_digit_def)
  have l: "LF \<notin> set ?l" "defaultBufSize \<le> length ?l" by (simp_all add: defaultBufSize_def)
  have f: "field (''X-Pad'', replicate 4100 (CHR ''a''))" by (simp add: field_def)
  have "render_field (''X-Pad'', replicate 4100 (CHR ''a'')) @ crlf @ ''next'' = ?l @ ?rest"
    by (simp add: render_field_def)
  moreover have "drop defaultBufSize (?l @ ?rest) = replicate 10 (CHR ''a'') @ ?rest"
    by (simp add: defaultBufSize_def)
  ultimately show ?thesis
    using parseStatus_long_line [OF sc l, of ?rest] sc(1) f length_name_simps(4)
    by simp
qed

text \<open>
  C5, amended: for every response whose header lines each fit the reader's buffer of 4096
  bytes and whose header block has no \<^verbatim>\<open>Content-Length\<close> field, the header loop ends
  with the content length 0, and \<open>parseStatus\<close> returns the status code and leaves the
  reader at the first byte after the blank line that ends the header block.
\<close>

theorem no_content_length_zero_body:
  assumes "status_code code" "LF \<notin> set reason"
    and "\<forall>f\<in>set fs. field f \<and> fits f \<and> \<not> length_name (fst f)"
  shows "header_loop 0 False (concat (map render_field fs) @ crlf @ rest) = (Inr 0, rest)
       \<and> parseStatus (status_line code reason @ concat (map render_field fs) @ crlf @ rest)
           = (Inr (dec_value code), rest)"
proof -
  have fs: "\<forall>f\<in>set fs. field f \<and> fits f \<and> (False \<or> \<not> length_name (fst f))"
    using assms(3) by simp
  have hl: "header_loop 0 False (concat (map render_field fs) @ crlf @ rest) = (Inr 0, rest)"
    using header_loop_fields_skip [OF fs, of 0 "crlf @ rest"] by (simp add: header_loop_blank)
  show ?thesis
    unfolding parseStatus_status_line [OF assms(1,2)] hl by (simp add: Discard_zero)
qed

theorem no_content_length_zero_body_witness:
  "status_code ''200'' \<and> LF \<notin> set ''OK'' \<and>
   field (''Server'', '' Apache'') \<and> fits (''Server'', '' Apache'') \<and> \<not> length_name ''Server'' \<and>
   header_loop 0 False (render_field (''Server'', '' Apache'') @ crlf @ ''HTTP/1.1 400'') = (Inr 0, ''HTTP/1.1 400'') \<and>
   parseStatus (status_line ''200'' ''OK'' @ render_field (''Server'', '' Apache'') @ crlf @ ''HTTP/1.1 400'')
     = (Inr 200, ''HTTP/1.1 400'')"
proof -
  have sc: "status_code ''200''" "LF \<notin> set ''OK''" by (simp_all add: status_code_def is_digit_def)
  have f: "field (''Server'', '' Apache'')" "fits (''Server'', '' Apache'')"
    by (simp_all add: eval_simps)
  have fs: "\<forall>f\<in>set [(''Server'', '' Apache'')]. field f \<and> fits f \<and> \<not> length_name (fst f)"
    using f length_name_simps(3) by simp
  have c: "dec_value ''200'' = 200" by (simp add: dec_value_def digit_val_def)
  show ?thesis
    using no_content_length_zero_body [OF sc fs, of "''HTTP/1.1 400''"] sc f length_name_simps(3)
    by (simp add: c)
qed










section \<open>Lines of a stream\<close>

lemma IndexByte_take:
  "IndexByte (take n s) c = Some i \<Longrightarrow> IndexByte s c = Some i"
proof (induction s arbitrary: n i)
  case Nil
  then show ?case by simp
next
  case (Cons x xs)
  show ?case
  proof (cases n)
    case 0
    then show ?thesis using Cons.prems by simp
  next
    case (Suc k)
    then show ?thesis using Cons by (auto split: if_splits)
  qed
qed

lemma IndexByte_line:
  assumes "IndexByte s c = Some i"
  shows "take (Suc i) s = take i s @ [c]" "c \<notin> set (take i s)" "i < length s"
proof -
  from IndexByte_SomeD [OF assms] have d: "i < length s" "s ! i = c" "c \<notin> set (take i s)"
    by simp_all
  show "take (Suc i) s = take i s @ [c]" using d(1,2) by (simp add: take_Suc_conv_app_nth)
  show "c \<notin> set (take i s)" by (rule d(3))
  show "i < length s" by (rule d(1))
qed

lemma ReadString_success:
  assumes "ReadString LF s = ((line, None), r)"
  shows "is_line line" "s = line @ r"
proof -
  from assms obtain i where i: "IndexByte s LF = Some i" "line = take (Suc i) s" "r = drop (Suc i) s"
    by (auto simp: ReadString_def split: option.splits)
  show "s = line @ r" by (simp add: i(2,3))
  show "is_line line" using IndexByte_line [OF i(1)] by (simp add: is_line_def i(2))
qed

lemma ReadSlice_success:
  assumes "ReadSlice LF s = ((line, None), r)"
  shows "is_line line" "s = line @ r" "length line \<le> defaultBufSize"
proof -
  from assms obtain i where i: "IndexByte (take defaultBufSize s) LF = Some i"
    "line = take (Suc i) s" "r = drop (Suc i) s"
    by (auto simp: ReadSlice_def split: option.splits if_splits)
  have full: "IndexByte s LF = Some i" using i(1) by (rule IndexByte_take)
  show "s = line @ r" by (simp add: i(2,3))
  show "is_line line" using IndexByte_line [OF full] by (simp add: is_line_def i(2))
  have "i < length (take defaultBufSize s)" using i(1) by (rule IndexByte_Some_less)
  then show "length line \<le> defaultBufSize" by (simp add: i(2))
qed

lemma is_line_take: "is_line l \<Longrightarrow> m < length l \<Longrightarrow> LF \<notin> set (take m l)"
proof -
  assume l: "is_line l" and m: "m < length l"
  from l obtain b where b: "l = b @ [LF]" "LF \<notin> set b" by (rule is_lineE)
  have "take m l = take m b" using m by (simp add: b(1))
  then show ?thesis using b(2) by (auto dest: in_set_takeD)
qed

lemma header_loop_EOF:
  "LF \<notin> set s \<Longrightarrow> length s < defaultBufSize \<Longrightarrow> header_loop cl f s = (Inl EOF, [])"
  by (subst header_loop.simps) (simp add: ReadSlice_EOF)

definition header_step :: "int \<Rightarrow> bool \<Rightarrow> string \<Rightarrow> (error + int \<times> bool) option" where
  "header_step cl f l =
     (if l = crlf then None
      else if f \<or> \<not> names_length l then Some (Inr (cl, f))
      else
        (case Sscanf_length (drop 15 (ToLower l)) of
           (n, v, Some e) \<Rightarrow> Some (Inl e)
         | (n, v, None) \<Rightarrow>
             if n \<noteq> 1 then Some (Inl (ErrorString ''no content length''))
             else Some (Inr (v, True))))"

lemma header_loop_step:
  assumes "is_line l" "length l \<le> defaultBufSize"
  shows "header_loop cl f (l @ r) =
     (case header_step cl f l of
        None \<Rightarrow> (Inr cl, r)
      | Some (Inl e) \<Rightarrow> (Inl e, r)
      | Some (Inr (cl', f')) \<Rightarrow> header_loop cl' f' r)"
proof (cases "l = crlf")
  case True
  then show ?thesis by (simp add: header_step_def header_loop_blank)
next
  case nb: False
  show ?thesis
  proof (cases "f \<or> \<not> names_length l")
    case True
    then show ?thesis
      using header_loop_skip [OF assms nb True, of cl r] nb by (simp add: header_step_def)
  next
    case False
    then have f: "f = False" and nl: "names_length l" by simp_all
    obtain n v e where s: "Sscanf_length (drop 15 (ToLower l)) = (n, v, e)"
      using prod_cases3 by blast
    show ?thesis
      using header_loop_length [OF assms nl, of cl r] nb nl
      by (cases e) (simp_all add: header_step_def f s)
  qed
qed

section \<open>The header block decides\<close>

text \<open>
  What the header loop does depends on the header block alone: when it succeeds on a
  stream, it succeeds alike whatever follows the block, and on every proper prefix of the
  block it ends with \<^verbatim>\<open>io.EOF\<close>.
\<close>

lemma header_loop_local:
  "header_loop cl f s = (Inr v, r2) \<Longrightarrow>
   \<exists>c. s = c @ r2 \<and> (\<forall>t. header_loop cl f (c @ t) = (Inr v, t)) \<and>
       (\<forall>m<length c. header_loop cl f (take m c) = (Inl EOF, []))"
proof (induction "length s" arbitrary: s cl f rule: less_induct)
  case less
  obtain line e r where rs: "ReadSlice LF s = ((line, e), r)"
    by (metis prod.exhaust)
  have e: "e = None"
  proof (cases e)
    case (Some err)
    then have "header_loop cl f s = (Inl err, r)"
      by (subst header_loop.simps) (simp add: rs)
    then show ?thesis using less.prems by simp
  qed simp
  note ok = ReadSlice_success [OF rs [unfolded e]]
  have step: "header_loop cl f (line @ t) =
     (case header_step cl f line of
        None \<Rightarrow> (Inr cl, t)
      | Some (Inl e) \<Rightarrow> (Inl e, t)
      | Some (Inr (cl', f')) \<Rightarrow> header_loop cl' f' t)" for t
    using ok(1,3) by (rule header_loop_step)
  have short: "header_loop cl f (take m line) = (Inl EOF, [])" if "m < length line" for m
  proof -
    have "LF \<notin> set (take m line)" using ok(1) that by (rule is_line_take)
    moreover have "length (take m line) < defaultBufSize" using that ok(3) by simp
    ultimately show ?thesis by (rule header_loop_EOF)
  qed
  show ?case
  proof (cases "header_step cl f line")
    case None
    then have "header_loop cl f s = (Inr cl, r)" using step [of r] ok(2) by simp
    then have vr: "v = cl" "r2 = r" using less.prems by simp_all
    have "\<forall>t. header_loop cl f (line @ t) = (Inr v, t)" using step None vr by simp
    then show ?thesis using ok(2) vr short by blast
  next
    case (Some a)
    show ?thesis
    proof (cases a)
      case (Inl err)
      then have "header_loop cl f s = (Inl err, r)" using step [of r] ok(2) Some by simp
      then show ?thesis using less.prems by simp
    next
      case (Inr p)
      obtain cl' f' where p: "p = (cl', f')" by (cases p)
      have st: "header_loop cl f (line @ t) = header_loop cl' f' t" for t
        using step [of t] Some Inr p by simp
      then have "header_loop cl' f' r = (Inr v, r2)" using less.prems ok(2) by simp
      moreover have "length r < length s" using ok(1,2) by (auto simp: is_line_def)
      ultimately obtain c where c: "r = c @ r2" "\<forall>t. header_loop cl' f' (c @ t) = (Inr v, t)"
        "\<forall>m<length c. header_loop cl' f' (take m c) = (Inl EOF, [])"
        using less.hyps by blast
      have a1: "s = (line @ c) @ r2" using ok(2) c(1) by simp
      have a2: "\<forall>t. header_loop cl f ((line @ c) @ t) = (Inr v, t)"
        using st c(2) by simp
      have a3: "\<forall>m<length (line @ c). header_loop cl f (take m (line @ c)) = (Inl EOF, [])"
      proof (intro allI impI)
        fix m assume m: "m < length (line @ c)"
        show "header_loop cl f (take m (line @ c)) = (Inl EOF, [])"
        proof (cases "m < length line")
          case True
          then show ?thesis using short by simp
        next
          case False
          then have "take m (line @ c) = line @ take (m - length line) c" by simp
          moreover have "m - length line < length c" using m False by simp
          ultimately show ?thesis using st c(3) by simp
        qed
      qed
      show ?thesis using a1 a2 a3 by blast
    qed
  qed
qed

lemma Discard_success:
  assumes "Discard n r = ((d, None), r')"
  shows "0 \<le> n" "nat n \<le> length r" "r' = drop (nat n) r"
  using assms by (auto simp: Discard_def split: if_splits)

lemma Discard_take: "Discard (int k) (take k r @ t) = ((int k, None), t)" if "k \<le> length r"
  using that by (simp add: Discard_def min_def)

lemma Discard_short: "0 \<le> n \<Longrightarrow> length r < nat n \<Longrightarrow> Discard n r = ((int (length r), Some EOF), [])"
  by (auto simp: Discard_def)

section \<open>A response decides\<close>

lemma parseStatus_EOF: "LF \<notin> set s \<Longrightarrow> parseStatus s = (Inl EOF, [])"
  by (simp add: parseStatus_def ReadString_EOF)

lemma parseStatus_line:
  assumes "is_line line" "Sscanf_status line = (1, code, None)"
  shows "parseStatus (line @ x) =
     (case header_loop 0 False x of
        (Inl e, r2) \<Rightarrow> (Inl e, r2)
      | (Inr contentLength, r2) \<Rightarrow>
          (case Discard contentLength r2 of
             ((d, Some e), r3) \<Rightarrow> (Inl e, r3)
           | ((d, None), r3) \<Rightarrow> (Inr code, r3)))"
  unfolding parseStatus_def ReadString_is_line [OF assms(1)]
  by (simp only: prod.case option.case assms(2) simp_thms if_False)

text \<open>
  The same for \<open>parseStatus\<close>: a successful call consumed a prefix \<open>c\<close> of the stream; it
  returns the same status on \<open>c\<close> followed by anything, and on every proper prefix of \<open>c\<close>
  (a stream that ends inside the response, or before its first byte) it returns
  \<^verbatim>\<open>io.EOF\<close>, having read all there was.
\<close>

lemma parseStatus_local:
  assumes "parseStatus s = (Inr code, r)"
  shows "\<exists>c. s = c @ r \<and> (\<forall>t. parseStatus (c @ t) = (Inr code, t)) \<and>
       (\<forall>m<length c. parseStatus (take m c) = (Inl EOF, []))"
proof -
  obtain line e r1 where rs: "ReadString LF s = ((line, e), r1)" by (metis prod.exhaust)
  have e: "e = None" using assms by (cases e) (simp_all add: parseStatus_def rs)
  note ok = ReadString_success [OF rs [unfolded e]]
  obtain n st se where sc: "Sscanf_status line = (n, st, se)" using prod_cases3 by blast
  have se: "se = None" using assms by (cases se) (simp_all add: parseStatus_def rs e sc)
  have n: "n = 1" using sc se Sscanf_status_n by blast
  note pl = parseStatus_line [OF ok(1) sc [unfolded se n]]
  obtain h r2 where hl: "header_loop 0 False r1 = (h, r2)" by (cases "header_loop 0 False r1")
  from assms have full: "(case h of Inl e \<Rightarrow> (Inl e, r2)
      | Inr contentLength \<Rightarrow>
          (case Discard contentLength r2 of
             ((d, Some e), r3) \<Rightarrow> (Inl e, r3)
           | ((d, None), r3) \<Rightarrow> (Inr st, r3))) = (Inr code, r)"
    using pl [of r1] ok(2) hl by simp
  then obtain cl where h: "h = Inr cl" by (cases h) simp_all
  obtain d de r3 where di: "Discard cl r2 = ((d, de), r3)" by (metis prod.exhaust)
  have de: "de = None" using full by (cases de) (simp_all add: h di)
  have res: "st = code" "r3 = r" using full by (simp_all add: h di de)
  note dk = Discard_success [OF di [unfolded de res]]
  from header_loop_local [OF hl [unfolded h]] obtain c1 where c1: "r1 = c1 @ r2"
    "\<forall>t. header_loop 0 False (c1 @ t) = (Inr cl, t)"
    "\<forall>m<length c1. header_loop 0 False (take m c1) = (Inl EOF, [])"
    by blast
  let ?k = "nat cl"
  let ?body = "take ?k r2"
  let ?c = "line @ c1 @ ?body"
  have cl: "cl = int ?k" using dk(1) by simp
  have a1: "s = ?c @ r" using ok(2) c1(1) dk(3) by simp
  have a2: "parseStatus (?c @ t) = (Inr code, t)" for t
  proof -
    have "Discard cl (?body @ t) = ((cl, None), t)"
      using Discard_take [OF dk(2), of t] cl by simp
    then show ?thesis
      using pl [of "c1 @ ?body @ t"] c1(2) res(1) by simp
  qed
  have a3: "parseStatus (take m ?c) = (Inl EOF, [])" if m: "m < length ?c" for m
  proof (cases "m < length line")
    case True
    then have "LF \<notin> set (take m line)" using ok(1) is_line_take by blast
    then show ?thesis using True by (simp add: parseStatus_EOF)
  next
    case False
    let ?m1 = "m - length line"
    have tk: "take m ?c = line @ take ?m1 (c1 @ ?body)" using False by simp
    show ?thesis
    proof (cases "?m1 < length c1")
      case True
      then have "header_loop 0 False (take ?m1 (c1 @ ?body)) = (Inl EOF, [])"
        using c1(3) by simp
      then show ?thesis unfolding tk pl by simp
    next
      case nh: False
      let ?m2 = "?m1 - length c1"
      have t2: "take ?m1 (c1 @ ?body) = c1 @ take ?m2 ?body" using nh by simp
      have lt: "?m2 < ?k" using m False nh dk(2) by simp
      have "length (take ?m2 ?body) < nat cl" using lt dk(2) by simp
      then have "Discard cl (take ?m2 ?body) = ((int (length (take ?m2 ?body)), Some EOF), [])"
        using dk(1) by (rule Discard_short [rotated])
      then show ?thesis
        unfolding tk t2 pl using c1(2) by simp
    qed
  qed
  show ?thesis using a1 a2 a3 by blast
qed

section \<open>A connection that accepts every byte\<close>

text \<open>A connection that accepts every byte: writing and flushing succeed and read nothing.\<close>

lemma conn_Write_accepts:
  "limit b = None \<Longrightarrow> conn_Write p b = ((length p, None), b\<lparr>sent := sent b @ p\<rparr>)"
  by (simp add: conn_Write_def)

lemma Flush_accepts:
  assumes "werr b = None" "limit b = None"
  shows "\<exists>b'. Flush b = (None, b') \<and> werr b' = None \<and> limit b' = None \<and> incoming b' = incoming b"
  using assms by (simp add: Flush_def conn_Write_accepts)

lemma Write_accepts:
  "werr b = None \<Longrightarrow> limit b = None \<Longrightarrow>
   \<exists>b'. Write p b = ((length p, None), b') \<and> werr b' = None \<and> limit b' = None \<and>
        incoming b' = incoming b"
proof (induction p b rule: Write.induct)
  case (1 p b)
  show ?case
  proof (cases "length p > Available b")
    case False
    then show ?thesis using "1.prems" by (subst Write.simps) simp
  next
    case big: True
    show ?thesis
    proof (cases "wbuf b = []")
      case True
      let ?b' = "b\<lparr>sent := sent b @ p\<rparr>"
      have cw: "conn_Write p b = ((length p, None), ?b')"
        using "1.prems"(2) by (rule conn_Write_accepts)
      have "\<exists>b''. Write (drop (length p) p) (?b'\<lparr>werr := None\<rparr>) = ((length (drop (length p) p), None), b'')
          \<and> werr b'' = None \<and> limit b'' = None \<and> incoming b'' = incoming (?b'\<lparr>werr := None\<rparr>)"
        using "1.IH"(1) [of "(length p, None)" ?b' "length p" None]
          big True "1.prems" cw by simp
      then obtain b'' where b'': "Write [] (?b'\<lparr>werr := None\<rparr>) = ((0, None), b'')"
        "werr b'' = None" "limit b'' = None" "incoming b'' = incoming b" by auto
      have "Write p b = ((length p, None), b'')"
        using big True "1.prems"(1) cw b''(1) by (subst Write.simps) simp
      then show ?thesis using b''(2,3,4) by blast
    next
      case False
      let ?n = "Available b"
      let ?bf = "b\<lparr>wbuf := wbuf b @ take ?n p\<rparr>"
      have "werr ?bf = None" "limit ?bf = None" using "1.prems" by simp_all
      then obtain b' where b': "Flush ?bf = (None, b')" "werr b' = None" "limit b' = None"
        "incoming b' = incoming ?bf"
        using Flush_accepts [of ?bf] by blast
      have "\<exists>b''. Write (drop ?n p) b' = ((length (drop ?n p), None), b'')
          \<and> werr b'' = None \<and> limit b'' = None \<and> incoming b'' = incoming b'"
        using "1.IH"(2) [of ?n None b'] big False "1.prems"(1) b'(1,2,3) by simp
      then obtain b'' where b'': "Write (drop ?n p) b' = ((length p - ?n, None), b'')"
        "werr b'' = None" "limit b'' = None" "incoming b'' = incoming b"
        using b'(4) by auto
      have "Write p b = ((?n + (length p - ?n), None), b'')"
        using big False "1.prems"(1) b'(1) b''(1) by (subst Write.simps) (simp add: Let_def)
      then have "Write p b = ((length p, None), b'')" using big by simp
      then show ?thesis using b''(2,3,4) by blast
    qed
  qed
qed

section \<open>The default probe\<close>

lemma optionsProber_writes:
  assumes "werr c = None" "limit c = None"
  shows "\<exists>c'. writer_loop (optionsProber host) 2 0 c = ([(0, None), (1, None)], c') \<and>
       werr c' = None \<and> limit c' = None \<and> incoming c' = incoming c"
proof -
  let ?p0 = "''OPTIONS * HTTP/1.1'' @ crlf @ ''Host: '' @ host @ crlf @ crlf"
  let ?p1 = "''OPTIONS . HTTP/1.1'' @ crlf @ ''Host: '' @ host @ crlf @ crlf"
  from Write_accepts [OF assms, of ?p0] obtain c0 where c0:
    "Write ?p0 c = ((length ?p0, None), c0)" "werr c0 = None" "limit c0 = None"
    "incoming c0 = incoming c" by blast
  from Write_accepts [OF c0(2,3), of ?p1] obtain c1 where c1:
    "Write ?p1 c0 = ((length ?p1, None), c1)" "werr c1 = None" "limit c1 = None"
    "incoming c1 = incoming c0" by blast
  have w0: "WriteRequest (optionsProber host) 0 c = (None, c0)"
    using c0(1) by (simp add: optionsProber_def optionsProber_WriteRequest_def)
  have w1: "WriteRequest (optionsProber host) (Suc 0) c0 = (None, c1)"
    using c1(1) by (simp add: optionsProber_def optionsProber_WriteRequest_def)
  have "writer_loop (optionsProber host) 2 2 c1 = ([], c1)"
    by (subst writer_loop.simps) simp
  then have "writer_loop (optionsProber host) 2 (Suc 0) c0 = ([(1, None)], c1)"
    using w1 by (subst writer_loop.simps) (simp add: numeral_2_eq_2)
  then have "writer_loop (optionsProber host) 2 0 c = ([(0, None), (1, None)], c1)"
    using w0 by (subst writer_loop.simps) simp
  then show ?thesis using c1(2,3,4) c0(4) by simp
qed

text \<open>
  The outcome of the default probe on a connection that accepts the requests, in terms of
  the two calls of \<open>parseStatus\<close> on the peer's bytes.
\<close>

definition default_outcome :: "string \<Rightarrow> bool \<times> error option" where
  "default_outcome bs =
     (case parseStatus bs of
        (Inl e, r) \<Rightarrow>
          if e \<noteq> EOF then (False, Some (Malformed e 0))
          else
            (case parseStatus r of
               (Inl e', r') \<Rightarrow> if e' \<noteq> EOF then (False, Some (Malformed e' 1)) else (False, None)
             | (Inr c1, r') \<Rightarrow> (False, None))
      | (Inr c0, r) \<Rightarrow>
          (case parseStatus r of
             (Inl e', r') \<Rightarrow> if e' \<noteq> EOF then (False, Some (Malformed e' 1)) else (False, None)
           | (Inr c1, r') \<Rightarrow> (c0 = 200 \<and> c1 = 400, None)))"

lemma reader_loop_default:
  "fst (reader_loop (optionsProber host) [(0, None), (1, None)] True c) = default_outcome (incoming c)"
proof -
  obtain h0 r0 where p0: "parseStatus (incoming c) = (h0, r0)" by (cases "parseStatus (incoming c)")
  obtain h1 r1 where p1: "parseStatus r0 = (h1, r1)" by (cases "parseStatus r0")
  show ?thesis
    by (cases h0; cases h1)
       (simp_all add: default_outcome_def optionsProber_def optionsProber_ReadRequest_def p0 p1)
qed

lemma Probe_default:
  assumes "werr c = None" "limit c = None"
  shows "fst (Probe Flush (optionsProber host) c) = default_outcome (incoming c)"
proof -
  from optionsProber_writes [OF assms, of host] obtain c1 where c1:
    "writer_loop (optionsProber host) 2 0 c = ([(0, None), (1, None)], c1)"
    "werr c1 = None" "limit c1 = None" "incoming c1 = incoming c" by blast
  from Flush_accepts [OF c1(2,3)] obtain c2 where c2: "Flush c1 = (None, c2)"
    "incoming c2 = incoming c1" by blast
  have n: "NumRequests (optionsProber host) = 2" by (simp add: optionsProber_def)
  have "Probe Flush (optionsProber host) c = reader_loop (optionsProber host) [(0, None), (1, None)] True c2"
    by (simp add: Probe_def n c1(1) c2(1))
  then show ?thesis using reader_loop_default [of host c2] c2(2) c1(4) by simp
qed

lemma Probe_default_dial:
  "fst (Probe Flush (optionsProber host) (dial bs None)) = default_outcome bs"
  using Probe_default [of "dial bs None" host] by (simp add: dial_def)

section \<open>Claims C7 and C4: the default probe's verdict\<close>

lemma parseStatus_empty: "parseStatus [] = (Inl EOF, [])"
  by (simp add: parseStatus_EOF)

lemma default_outcome_EOF:
  "parseStatus bs = (Inl EOF, []) \<Longrightarrow> default_outcome bs = (False, None)"
  by (simp add: default_outcome_def parseStatus_empty)

lemma default_outcome_then_EOF:
  "parseStatus bs = (Inr c0, r) \<Longrightarrow> parseStatus r = (Inl EOF, r') \<Longrightarrow>
   default_outcome bs = (False, None)"
  by (simp add: default_outcome_def)

lemma default_outcome_two:
  "parseStatus bs = (Inr c0, r) \<Longrightarrow> parseStatus r = (Inr c1, r') \<Longrightarrow>
   default_outcome bs = (c0 = 200 \<and> c1 = 400, None)"
  by (simp add: default_outcome_def)

lemma parse_bad_ok:
  "parseStatus (render bad_request @ render ok_response) = (Inr 400, render ok_response)"
  "parseStatus (render ok_response @ render bad_request) = (Inr 200, render bad_request)"
  "parseStatus (render ok_response) = (Inr 200, [])"
  "parseStatus (render bad_request) = (Inr 400, [])"
proof -
  have b: "length (resp_body bad_request) < 2 ^ 63" by (simp add: bad_request_def)
  have k: "length (resp_body ok_response) < 2 ^ 63" by (simp add: ok_response_def)
  have c: "dec_value (resp_code bad_request) = 400" "dec_value (resp_code ok_response) = 200"
    by (simp_all add: bad_request_def ok_response_def dec_value_def digit_val_def)
  show "parseStatus (render bad_request @ render ok_response) = (Inr 400, render ok_response)"
    using parseStatus_response [OF http_response_bad b, of "render ok_response"] c by simp
  show "parseStatus (render ok_response @ render bad_request) = (Inr 200, render bad_request)"
    using parseStatus_response [OF http_response_ok k, of "render bad_request"] c by simp
  show "parseStatus (render ok_response) = (Inr 200, [])"
    using parseStatus_response [OF http_response_ok k, of "[]"] c by simp
  show "parseStatus (render bad_request) = (Inr 400, [])"
    using parseStatus_response [OF http_response_bad b, of "[]"] c by simp
qed

text \<open>
  C7: with the default prober, on a connection that accepts the two requests, a stream
  whose two responses parse with the statuses 400 and then 200 gives the verdict false
  with no error, while the same two statuses in the order 200 and then 400 give the
  verdict true: the order of the responses decides, not which statuses occur.
\<close>

theorem default_probe_order:
  "(parseStatus bs = (Inr 400, r1) \<and> parseStatus r1 = (Inr 200, r2) \<longrightarrow>
      fst (Probe Flush (optionsProber host) (dial bs None)) = (False, None)) \<and>
   (parseStatus bs = (Inr 200, r1) \<and> parseStatus r1 = (Inr 400, r2) \<longrightarrow>
      fst (Probe Flush (optionsProber host) (dial bs None)) = (True, None))"
  using default_outcome_two [of bs _ r1 _ r2] by (auto simp: Probe_default_dial)

theorem default_probe_order_witness:
  "fst (Probe Flush (optionsProber ''example.com'')
         (dial (render bad_request @ render ok_response) None)) = (False, None) \<and>
   fst (Probe Flush (optionsProber ''example.com'')
         (dial (render ok_response @ render bad_request) None)) = (True, None)"
  using default_probe_order [of "render bad_request @ render ok_response" "render ok_response" "[]"
      "''example.com''"]
    default_probe_order [of "render ok_response @ render bad_request" "render bad_request" "[]"
      "''example.com''"]
    parse_bad_ok
  by simp

text \<open>
  C4: when the stream has ended before the first byte of a response, \<open>ReadRequest\<close> of the
  default prober returns expected = false and no error. So on a connection that accepts
  the requests, a stream that is empty, or that ends right after a first response that
  parses, makes \<open>Probe\<close> return the verdict false with no error.
\<close>

theorem clean_close_false_verdict:
  "(ident < 2 \<and> incoming c = [] \<longrightarrow>
      optionsProber_ReadRequest host ident c = ((False, None), c)) \<and>
   fst (Probe Flush (optionsProber host) (dial [] None)) = (False, None) \<and>
   (parseStatus bs = (Inr c0, []) \<longrightarrow>
      fst (Probe Flush (optionsProber host) (dial bs None)) = (False, None))"
proof (intro conjI impI)
  assume a: "ident < 2 \<and> incoming c = []"
  then have "c\<lparr>incoming := []\<rparr> = c" by simp
  then show "optionsProber_ReadRequest host ident c = ((False, None), c)"
    using a by (simp add: optionsProber_ReadRequest_def parseStatus_empty)
next
  show "fst (Probe Flush (optionsProber host) (dial [] None)) = (False, None)"
    by (simp add: Probe_default_dial default_outcome_EOF parseStatus_empty)
next
  assume "parseStatus bs = (Inr c0, [])"
  then show "fst (Probe Flush (optionsProber host) (dial bs None)) = (False, None)"
    by (simp add: Probe_default_dial default_outcome_then_EOF [OF _ parseStatus_empty])
qed

theorem clean_close_false_verdict_witness:
  "optionsProber_ReadRequest ''example.com'' 1 (dial [] None) = ((False, None), dial [] None) \<and>
   fst (Probe Flush (optionsProber ''example.com'') (dial [] None)) = (False, None) \<and>
   fst (Probe Flush (optionsProber ''example.com'') (dial (render ok_response) None)) = (False, None)"
  using clean_close_false_verdict [of 1 "dial [] None" "''example.com''" "render ok_response" 200]
    parse_bad_ok(3)
  by (simp add: dial_def)

section \<open>Claim C3: a stream that ends inside a response\<close>

lemma parseStatus_status_EOF:
  assumes "status_code code" "LF \<notin> set reason" "LF \<notin> set t" "length t < defaultBufSize"
  shows "parseStatus (status_line code reason @ t) = (Inl EOF, [])"
  using parseStatus_status_line [OF assms(1,2), of t] header_loop_EOF [OF assms(3,4)] by simp

text \<open>
  C3, as stated, fails. Three streams that end inside a response: in the status line, in
  the header block, and after two of the four bytes of the body. On each,
  \<open>parseStatus\<close> returns \<^verbatim>\<open>io.EOF\<close>, and \<open>Probe\<close> returns the verdict false with
  no error.
\<close>

theorem truncated_response_counterexample:
  "parseStatus ''HTTP/1.1 2'' = (Inl EOF, []) \<and>
   fst (Probe Flush (optionsProber ''example.com'') (dial ''HTTP/1.1 2'' None)) = (False, None) \<and>
   parseStatus (status_line ''200'' ''OK'' @ ''Content-Le'') = (Inl EOF, []) \<and>
   fst (Probe Flush (optionsProber ''example.com'')
          (dial (status_line ''200'' ''OK'' @ ''Content-Le'') None)) = (False, None) \<and>
   parseStatus (take (length (render bad_request) - 2) (render bad_request)) = (Inl EOF, []) \<and>
   fst (Probe Flush (optionsProber ''example.com'')
          (dial (take (length (render bad_request) - 2) (render bad_request)) None)) = (False, None)"
proof -
  have p1: "parseStatus ''HTTP/1.1 2'' = (Inl EOF, [])" by (simp add: parseStatus_EOF)
  have sc: "status_code ''200''" "LF \<notin> set ''OK''" by (simp_all add: status_code_def is_digit_def)
  have p2: "parseStatus (status_line ''200'' ''OK'' @ ''Content-Le'') = (Inl EOF, [])"
    by (rule parseStatus_status_EOF [OF sc]) (simp_all add: defaultBufSize_def)
  from parseStatus_local [OF parse_bad_ok(4)] obtain c where c: "render bad_request = c @ []"
    "\<forall>m<length c. parseStatus (take m c) = (Inl EOF, [])" by blast
  have "length (render bad_request) - 2 < length (render bad_request)"
    by (simp add: render_def crlf_def)
  then have p3: "parseStatus (take (length (render bad_request) - 2) (render bad_request)) = (Inl EOF, [])"
    using c by simp
  show ?thesis
    using p1 p2 p3 by (simp add: Probe_default_dial default_outcome_EOF)
qed

text \<open>
  C3, amended: let \<open>parseStatus\<close> succeed on a stream \<open>s\<close>, leaving \<open>r1\<close>. If the stream
  ends instead after \<open>m\<close> bytes, before the end of that first response, then
  \<open>parseStatus\<close> fails with \<^verbatim>\<open>io.EOF\<close>, \<open>ReadRequest\<close> of the default prober returns
  expected = false and no error, and \<open>Probe\<close>, on a connection that accepts the requests,
  returns the verdict false with no error. The same verdict results when a second
  response parses on \<open>r1\<close>, leaving \<open>r2\<close>, and the stream ends inside that second response.
\<close>

theorem truncated_response_false_verdict:
  "(parseStatus s = (Inr c0, r1) \<and> m < length s - length r1 \<longrightarrow>
      parseStatus (take m s) = (Inl EOF, []) \<and>
      (ident < 2 \<and> incoming c = take m s \<longrightarrow>
         optionsProber_ReadRequest host ident c = ((False, None), c\<lparr>incoming := []\<rparr>)) \<and>
      fst (Probe Flush (optionsProber host) (dial (take m s) None)) = (False, None)) \<and>
   (parseStatus s = (Inr c0, r1) \<and> parseStatus r1 = (Inr c1, r2) \<and>
    length s - length r1 \<le> m \<and> m < length s - length r2 \<longrightarrow>
      fst (Probe Flush (optionsProber host) (dial (take m s) None)) = (False, None))"
proof (intro conjI impI)
  assume a: "parseStatus s = (Inr c0, r1) \<and> m < length s - length r1"
  then obtain ca where ca: "s = ca @ r1" "\<forall>m<length ca. parseStatus (take m ca) = (Inl EOF, [])"
    using parseStatus_local [of s c0 r1] by blast
  have m: "m < length ca" using a ca(1) by simp
  then have "take m s = take m ca" by (simp add: ca(1))
  then show p: "parseStatus (take m s) = (Inl EOF, [])" using ca(2) m by simp
  show "fst (Probe Flush (optionsProber host) (dial (take m s) None)) = (False, None)"
    using p by (simp add: Probe_default_dial default_outcome_EOF)
  assume "ident < 2 \<and> incoming c = take m s"
  then show "optionsProber_ReadRequest host ident c = ((False, None), c\<lparr>incoming := []\<rparr>)"
    using p by (simp add: optionsProber_ReadRequest_def)
next
  assume a: "parseStatus s = (Inr c0, r1) \<and> parseStatus r1 = (Inr c1, r2) \<and>
    length s - length r1 \<le> m \<and> m < length s - length r2"
  then obtain ca where ca: "s = ca @ r1" "\<forall>t. parseStatus (ca @ t) = (Inr c0, t)"
    using parseStatus_local [of s c0 r1] by blast
  from a obtain cb where cb: "r1 = cb @ r2" "\<forall>m<length cb. parseStatus (take m cb) = (Inl EOF, [])"
    using parseStatus_local [of r1 c1 r2] by blast
  let ?k = "m - length ca"
  have k: "?k < length cb" "length ca \<le> m" using a ca(1) cb(1) by auto
  then have tk: "take m s = ca @ take ?k cb" by (simp add: ca(1) cb(1))
  have "parseStatus (take m s) = (Inr c0, take ?k cb)" unfolding tk using ca(2) by simp
  moreover have "parseStatus (take ?k cb) = (Inl EOF, [])" using cb(2) k(1) by simp
  ultimately show "fst (Probe Flush (optionsProber host) (dial (take m s) None)) = (False, None)"
    by (simp add: Probe_default_dial default_outcome_then_EOF)
qed

theorem truncated_response_false_verdict_witness:
  "parseStatus (take 30 (render bad_request @ render ok_response)) = (Inl EOF, []) \<and>
   optionsProber_ReadRequest ''example.com'' 0 (dial (take 30 (render bad_request @ render ok_response)) None)
     = ((False, None), dial [] None) \<and>
   fst (Probe Flush (optionsProber ''example.com'')
          (dial (take 30 (render bad_request @ render ok_response)) None)) = (False, None) \<and>
   fst (Probe Flush (optionsProber ''example.com'')
          (dial (take 70 (render bad_request @ render ok_response)) None)) = (False, None)"
proof -
  let ?s = "render bad_request @ render ok_response"
  have l: "length ?s = 105" "length (render ok_response) = 38"
    by (simp_all add: render_def bad_request_def ok_response_def status_line_def render_field_def crlf_def)
  have 1: "parseStatus ?s = (Inr 400, render ok_response) \<and> 30 < length ?s - length (render ok_response)"
    using parse_bad_ok(1) l by simp
  have 2: "parseStatus ?s = (Inr 400, render ok_response) \<and> parseStatus (render ok_response) = (Inr 200, []) \<and>
    length ?s - length (render ok_response) \<le> 70 \<and> 70 < length ?s - length ([] :: string)"
    using parse_bad_ok(1,3) l by simp
  have 3: "0 < (2::nat) \<and> incoming (dial (take 30 ?s) None) = take 30 ?s" by (simp add: dial_def)
  have 4: "(dial (take 30 ?s) None)\<lparr>incoming := []\<rparr> = dial [] None" by (simp add: dial_def)
  show ?thesis
    using truncated_response_false_verdict [of ?s 400 "render ok_response" 30 0
        "dial (take 30 ?s) None" "''example.com''" 200 "[]"]
      truncated_response_false_verdict [of ?s 400 "render ok_response" 70 0
        "dial (take 30 ?s) None" "''example.com''" 200 "[]"]
      1 2 3 4
    by simp
qed

section \<open>The calls that Probe makes\<close>

datatype call =
    WriteCall nat "error option"
  | FlushCall "error option"
  | ReadCall nat bool "error option"

datatype event = W nat | F | R nat

fun shape :: "call \<Rightarrow> event" where
  "shape (WriteCall i e) = W i"
| "shape (FlushCall e) = F"
| "shape (ReadCall i x e) = R i"

fun call_err :: "call \<Rightarrow> error option" where
  "call_err (WriteCall i e) = e"
| "call_err (FlushCall e) = e"
| "call_err (ReadCall i x e) = e"

fun call_expected :: "call \<Rightarrow> bool" where
  "call_expected (ReadCall i x e) = x"
| "call_expected c = True"

definition logged :: "'s Prober \<Rightarrow> ('s \<times> call list) Prober" where
  "logged p =
     \<lparr>NumRequests = NumRequests p,
      WriteRequest = (\<lambda>ident (s, log).
        case WriteRequest p ident s of (err, s') \<Rightarrow> (err, (s', log @ [WriteCall ident err]))),
      ReadRequest = (\<lambda>ident (s, log).
        case ReadRequest p ident s of
          ((expected, err), s') \<Rightarrow> ((expected, err), (s', log @ [ReadCall ident expected err])))\<rparr>"

definition logged_flush ::
  "('s \<Rightarrow> error option \<times> 's) \<Rightarrow> 's \<times> call list \<Rightarrow> error option \<times> ('s \<times> call list)" where
  "logged_flush flush = (\<lambda>(s, log). case flush s of (err, s') \<Rightarrow> (err, (s', log @ [FlushCall err])))"

definition calls :: "('s \<Rightarrow> error option \<times> 's) \<Rightarrow> 's Prober \<Rightarrow> 's \<Rightarrow> call list" where
  "calls flush p s = snd (snd (Probe (logged_flush flush) (logged p) (s, [])))"

fun read_log :: "'s Prober \<Rightarrow> write_rec list \<Rightarrow> 's \<Rightarrow> call list" where
  "read_log p [] s = []"
| "read_log p ((ident, err) # ws) s =
     (case err of
        Some e \<Rightarrow> []
      | None \<Rightarrow>
          (case ReadRequest p ident s of
             ((expected, Some e), s') \<Rightarrow> [ReadCall ident expected (Some e)]
           | ((expected, None), s') \<Rightarrow> ReadCall ident expected None # read_log p ws s'))"

lemma logged_simps:
  "NumRequests (logged p) = NumRequests p"
  "WriteRequest (logged p) i (s, log) =
     (case WriteRequest p i s of (err, s') \<Rightarrow> (err, (s', log @ [WriteCall i err])))"
  "ReadRequest (logged p) i (s, log) =
     (case ReadRequest p i s of
        ((expected, err), s') \<Rightarrow> ((expected, err), (s', log @ [ReadCall i expected err])))"
  by (simp_all add: logged_def)

lemma writer_loop_logged:
  "writer_loop (logged p) n i (s, log) =
     (case writer_loop p n i s of
        (ws, s') \<Rightarrow> (ws, (s', log @ map (\<lambda>(i, e). WriteCall i e) ws)))"
proof (induction "n - i" arbitrary: i s log)
  case 0
  then show ?case by (simp add: writer_loop.simps [of _ n i])
next
  case (Suc k)
  then have lt: "i < n" and k: "k = n - Suc i" by simp_all
  obtain err s' where w: "WriteRequest p i s = (err, s')" by (cases "WriteRequest p i s")
  obtain ws s'' where r: "writer_loop p n (Suc i) s' = (ws, s'')"
    by (cases "writer_loop p n (Suc i) s'")
  show ?case
    using Suc.hyps(1) [OF k, of s' "log @ [WriteCall i err]"] lt
    by (simp add: writer_loop.simps [of _ n i] logged_simps w r)
qed

lemma writer_loop_ids: "writer_loop p n i s = (ws, s') \<Longrightarrow> map fst ws = [i..<n]"
proof (induction "n - i" arbitrary: i s ws s')
  case 0
  then show ?case by (simp add: writer_loop.simps [of _ n i])
next
  case (Suc k)
  then have lt: "i < n" and k: "k = n - Suc i" by simp_all
  obtain err s1 where w: "WriteRequest p i s = (err, s1)" by (cases "WriteRequest p i s")
  obtain ws1 s2 where r: "writer_loop p n (Suc i) s1 = (ws1, s2)"
    by (cases "writer_loop p n (Suc i) s1")
  have "ws = (i, err) # ws1" using Suc.prems lt by (simp add: writer_loop.simps [of _ n i] w r)
  then show ?case using Suc.hyps(1) [OF k r] lt by (simp add: upt_conv_Cons)
qed

lemma reader_loop_logged:
  "reader_loop (logged p) ws av (s, log) =
     (case reader_loop p ws av s of (res, s') \<Rightarrow> (res, (s', log @ read_log p ws s)))"
proof (induction ws arbitrary: av s log)
  case Nil
  then show ?case by simp
next
  case (Cons w ws)
  obtain i err where w: "w = (i, err)" by (cases w)
  show ?case
  proof (cases err)
    case None
    obtain x e s' where r: "ReadRequest p i s = ((x, e), s')"
      by (metis prod.exhaust)
    show ?thesis
      using Cons [of "av \<and> x" s' "log @ [ReadCall i x None]"]
      by (cases e) (simp_all add: w None logged_simps r split: prod.splits)
  next
    case (Some e)
    then show ?thesis by (simp add: w)
  qed
qed

lemma calls_eq:
  "calls flush p s =
     (case writer_loop p (NumRequests p) 0 s of
        (ws, s1) \<Rightarrow>
          map (\<lambda>(i, e). WriteCall i e) ws @
          (case flush s1 of
             (Some e, s2) \<Rightarrow> [FlushCall (Some e)]
           | (None, s2) \<Rightarrow> FlushCall None # read_log p ws s2))"
proof -
  obtain ws s1 where w: "writer_loop p (NumRequests p) 0 s = (ws, s1)"
    by (cases "writer_loop p (NumRequests p) 0 s")
  obtain fe s2 where f: "flush s1 = (fe, s2)" by (cases "flush s1")
  obtain res s3 where r: "reader_loop p ws True s2 = (res, s3)"
    by (cases "reader_loop p ws True s2")
  show ?thesis
    by (cases fe)
       (simp_all add: calls_def Probe_def logged_simps writer_loop_logged w logged_flush_def f
          reader_loop_logged r)
qed

lemma Probe_eq:
  "fst (Probe flush p s) =
     (case writer_loop p (NumRequests p) 0 s of
        (ws, s1) \<Rightarrow>
          (case flush s1 of
             (Some e, s2) \<Rightarrow> (False, Some e)
           | (None, s2) \<Rightarrow> fst (reader_loop p ws True s2)))"
  by (simp add: Probe_def split: prod.splits option.splits)

lemma read_log_shape:
  "map shape (read_log p ws s) = map R (take (length (read_log p ws s)) (map fst ws))"
proof (induction ws arbitrary: s)
  case Nil
  then show ?case by simp
next
  case (Cons w ws)
  obtain i err where w: "w = (i, err)" by (cases w)
  obtain x e s' where r: "ReadRequest p i s = ((x, e), s')" by (metis prod.exhaust)
  show ?case using Cons [of s'] by (cases err; cases e) (simp_all add: w r)
qed

lemma read_log_clean:
  assumes "\<forall>w\<in>set ws. snd w = None" "\<forall>c\<in>set (read_log p ws s). call_err c = None"
  shows "fst (reader_loop p ws av s) = (av \<and> list_all call_expected (read_log p ws s), None)
       \<and> length (read_log p ws s) = length ws"
  using assms
proof (induction ws arbitrary: s av)
  case Nil
  then show ?case by simp
next
  case (Cons w ws)
  obtain i where w: "w = (i, None)" using Cons.prems(1) by (cases w) simp
  obtain x e s' where r: "ReadRequest p i s = ((x, e), s')" by (metis prod.exhaust)
  have e: "e = None" using Cons.prems(2) by (cases e) (simp_all add: w r)
  have "\<forall>w\<in>set ws. snd w = None" "\<forall>c\<in>set (read_log p ws s'). call_err c = None"
    using Cons.prems by (simp_all add: w r e)
  from Cons.IH [OF this, of "av \<and> x"] show ?case by (simp add: w r e)
qed

lemma read_log_failed:
  assumes "(\<exists>w\<in>set ws. snd w \<noteq> None) \<or> (\<exists>c\<in>set (read_log p ws s). call_err c \<noteq> None)"
  shows "\<exists>e. fst (reader_loop p ws av s) = (False, Some e) \<and>
       (Some e \<in> snd ` set ws \<or> Some e \<in> call_err ` set (read_log p ws s))"
  using assms
proof (induction ws arbitrary: s av)
  case Nil
  then show ?case by simp
next
  case (Cons w ws)
  obtain i err where w: "w = (i, err)" by (cases w)
  show ?case
  proof (cases err)
    case (Some e)
    then show ?thesis by (auto simp: w)
  next
    case None
    obtain x e s' where r: "ReadRequest p i s = ((x, e), s')" by (metis prod.exhaust)
    show ?thesis
    proof (cases e)
      case (Some er)
      then show ?thesis by (auto simp: w None r)
    next
      case ok: None
      have "(\<exists>w\<in>set ws. snd w \<noteq> None) \<or> (\<exists>c\<in>set (read_log p ws s'). call_err c \<noteq> None)"
        using Cons.prems by (auto simp: w None r ok)
      from Cons.IH [OF this, of "av \<and> x"] obtain e' where
        "fst (reader_loop p ws (av \<and> x) s') = (False, Some e')"
        "Some e' \<in> snd ` set ws \<or> Some e' \<in> call_err ` set (read_log p ws s')" by blast
      then show ?thesis by (auto simp: w None r ok)
    qed
  qed
qed

section \<open>Verdict and errors of Probe\<close>

lemma Probe_calls:
  "((\<forall>c\<in>set (calls flush p s). call_err c = None) \<longrightarrow>
      fst (Probe flush p s) = (list_all call_expected (calls flush p s), None) \<and>
      map shape (calls flush p s) = map W [0..<NumRequests p] @ F # map R [0..<NumRequests p]) \<and>
   ((\<exists>c\<in>set (calls flush p s). call_err c \<noteq> None) \<longrightarrow>
      (\<exists>e. fst (Probe flush p s) = (False, Some e) \<and> Some e \<in> call_err ` set (calls flush p s))) \<and>
   (FlushCall (Some e) \<in> set (calls flush p s) \<longrightarrow>
      fst (Probe flush p s) = (False, Some e) \<and>
      map shape (calls flush p s) = map W [0..<NumRequests p] @ [F] \<and>
      (\<forall>i x er. ReadCall i x er \<notin> set (calls flush p s)))"
proof -
  obtain ws s1 where w: "writer_loop p (NumRequests p) 0 s = (ws, s1)"
    by (cases "writer_loop p (NumRequests p) 0 s")
  obtain fe s2 where f: "flush s1 = (fe, s2)" by (cases "flush s1")
  note ids = writer_loop_ids [OF w]
  define wl where "wl = map (\<lambda>(i, e). WriteCall i e) ws"
  have "map shape wl = map W (map fst ws)" by (simp add: wl_def split_beta comp_def)
  then have wl_shape: "map shape wl = map W [0..<NumRequests p]" using ids by simp
  have wl_err: "call_err ` set wl = snd ` set ws" by (force simp: wl_def image_iff split_beta)
  have wl_err1: "(\<exists>c\<in>set wl. call_err c \<noteq> None) \<longleftrightarrow> (\<exists>w\<in>set ws. snd w \<noteq> None)"
    by (force simp: wl_def split_beta)
  have wl_exp: "list_all call_expected wl" by (simp add: wl_def list_all_iff split_beta)
  have wl_noflush: "FlushCall x \<notin> set wl" for x by (auto simp: wl_def split_beta)
  show ?thesis
  proof (cases fe)
    case (Some err)
    have c: "calls flush p s = wl @ [FlushCall (Some err)]" by (simp add: calls_eq w f Some wl_def)
    have r: "fst (Probe flush p s) = (False, Some err)" by (simp add: Probe_eq w f Some)
    have nr: "ReadCall i x er \<notin> set wl" for i x er by (auto simp: wl_def split_beta)
    show ?thesis using wl_noflush wl_shape nr by (auto simp: c r)
  next
    case None
    let ?rl = "read_log p ws s2"
    have c: "calls flush p s = wl @ FlushCall None # ?rl" by (simp add: calls_eq w f None wl_def)
    have r: "fst (Probe flush p s) = fst (reader_loop p ws True s2)" by (simp add: Probe_eq w f None)
    have rl_noflush: "FlushCall x \<notin> set ?rl" for x
    proof
      assume "FlushCall x \<in> set ?rl"
      then have "F \<in> set (map shape ?rl)" by force
      then show False unfolding read_log_shape by auto
    qed
    have 1: "(\<forall>c\<in>set (calls flush p s). call_err c = None) \<longrightarrow>
      fst (Probe flush p s) = (list_all call_expected (calls flush p s), None) \<and>
      map shape (calls flush p s) = map W [0..<NumRequests p] @ F # map R [0..<NumRequests p]"
    proof
      assume a: "\<forall>c\<in>set (calls flush p s). call_err c = None"
      then have "\<forall>w\<in>set ws. snd w = None" "\<forall>c\<in>set ?rl. call_err c = None"
        using wl_err1 by (auto simp: c)
      from read_log_clean [OF this, of True] have rc:
        "fst (reader_loop p ws True s2) = (list_all call_expected ?rl, None)"
        "length ?rl = length ws" by simp_all
      have "length ws = NumRequests p" using ids by (metis diff_zero length_map length_upt)
      then have "map shape ?rl = map R [0..<NumRequests p]"
        using read_log_shape [of p ws s2] rc(2) ids by simp
      then show "fst (Probe flush p s) = (list_all call_expected (calls flush p s), None) \<and>
        map shape (calls flush p s) = map W [0..<NumRequests p] @ F # map R [0..<NumRequests p]"
        using rc(1) wl_exp wl_shape by (simp add: c r)
    qed
    have 2: "(\<exists>c\<in>set (calls flush p s). call_err c \<noteq> None) \<longrightarrow>
      (\<exists>e. fst (Probe flush p s) = (False, Some e) \<and> Some e \<in> call_err ` set (calls flush p s))"
    proof
      assume "\<exists>c\<in>set (calls flush p s). call_err c \<noteq> None"
      then have "(\<exists>w\<in>set ws. snd w \<noteq> None) \<or> (\<exists>c\<in>set ?rl. call_err c \<noteq> None)"
        using wl_err1 by (auto simp: c)
      from read_log_failed [OF this, of True] obtain e' where
        "fst (reader_loop p ws True s2) = (False, Some e')"
        "Some e' \<in> snd ` set ws \<or> Some e' \<in> call_err ` set ?rl" by blast
      then show "\<exists>e. fst (Probe flush p s) = (False, Some e) \<and> Some e \<in> call_err ` set (calls flush p s)"
        using wl_err by (auto simp: c r)
    qed
    have 3: "FlushCall (Some e) \<notin> set (calls flush p s)"
      using wl_noflush rl_noflush by (simp add: c)
    show ?thesis using 1 2 3 by simp
  qed
qed

section \<open>Claims C2 and C9: what Probe returns\<close>

lemma Write_buffered:
  "length p \<le> Available b \<Longrightarrow> werr b = None \<Longrightarrow>
   Write p b = ((length p, None), b\<lparr>wbuf := wbuf b @ p\<rparr>)"
  by (subst Write.simps) simp

lemma read_log_default:
  assumes "parseStatus (incoming c) = (Inr c0, r1)" "parseStatus r1 = (Inr c1, r2)"
  shows "read_log (optionsProber host) [(0, None), (1, None)] c =
     [ReadCall 0 (c0 = 200) None, ReadCall 1 (c1 = 400) None]"
  using assms by (simp add: optionsProber_def optionsProber_ReadRequest_def)

lemma calls_default:
  assumes "parseStatus bs = (Inr c0, r1)" "parseStatus r1 = (Inr c1, r2)"
  shows "calls Flush (optionsProber host) (dial bs None) =
     [WriteCall 0 None, WriteCall 1 None, FlushCall None,
      ReadCall 0 (c0 = 200) None, ReadCall 1 (c1 = 400) None]"
proof -
  have d: "werr (dial bs None) = None" "limit (dial bs None) = None" by (simp_all add: dial_def)
  from optionsProber_writes [OF d, of host] obtain c1' where c1:
    "writer_loop (optionsProber host) 2 0 (dial bs None) = ([(0, None), (1, None)], c1')"
    "werr c1' = None" "limit c1' = None" "incoming c1' = incoming (dial bs None)" by blast
  from Flush_accepts [OF c1(2,3)] obtain c2 where c2: "Flush c1' = (None, c2)"
    "incoming c2 = incoming c1'" by blast
  have n: "NumRequests (optionsProber host) = 2" by (simp add: optionsProber_def)
  have "incoming c2 = bs" using c2(2) c1(4) by (simp add: dial_def)
  then have "read_log (optionsProber host) [(0, None), (1, None)] c2 =
     [ReadCall 0 (c0 = 200) None, ReadCall 1 (c1 = 400) None]"
    using assms by (intro read_log_default) simp_all
  then show ?thesis by (simp add: calls_eq n c1(1) c2(1))
qed

text \<open>
  A connection that rejects every byte: the two requests of the default prober for the
  host \<^verbatim>\<open>a\<close> fit the writer's buffer, so both \<open>WriteRequest\<close> calls succeed, and the
  flush fails.
\<close>

lemma calls_broken:
  "calls Flush (optionsProber ''a'') (dial bs (Some 0)) =
     [WriteCall 0 None, WriteCall 1 None, FlushCall (Some ErrClosedPipe)]"
proof -
  let ?pa = "''OPTIONS * HTTP/1.1'' @ crlf @ ''Host: '' @ ''a'' @ crlf @ crlf"
  let ?pb = "''OPTIONS . HTTP/1.1'' @ crlf @ ''Host: '' @ ''a'' @ crlf @ crlf"
  let ?c = "dial bs (Some 0)"
  let ?ca = "?c\<lparr>wbuf := ?pa\<rparr>"
  let ?cb = "?c\<lparr>wbuf := ?pa @ ?pb\<rparr>"
  have "Write ?pa ?c = ((length ?pa, None), ?c\<lparr>wbuf := wbuf ?c @ ?pa\<rparr>)"
    by (rule Write_buffered [of ?pa ?c])
       (simp_all add: dial_def Available_def defaultBufSize_def crlf_def)
  then have w0: "WriteRequest (optionsProber ''a'') 0 ?c = (None, ?ca)"
    by (simp add: optionsProber_def optionsProber_WriteRequest_def dial_def)
  have "Write ?pb ?ca = ((length ?pb, None), ?ca\<lparr>wbuf := wbuf ?ca @ ?pb\<rparr>)"
    by (rule Write_buffered [of ?pb ?ca])
       (simp_all add: dial_def Available_def defaultBufSize_def crlf_def)
  then have w1: "WriteRequest (optionsProber ''a'') (Suc 0) ?ca = (None, ?cb)"
    by (simp add: optionsProber_def optionsProber_WriteRequest_def dial_def)
  have "writer_loop (optionsProber ''a'') 2 2 ?cb = ([], ?cb)"
    by (subst writer_loop.simps) simp
  then have "writer_loop (optionsProber ''a'') 2 (Suc 0) ?ca = ([(1, None)], ?cb)"
    using w1 by (subst writer_loop.simps) (simp add: numeral_2_eq_2)
  then have wl: "writer_loop (optionsProber ''a'') 2 0 ?c = ([(0, None), (1, None)], ?cb)"
    using w0 by (subst writer_loop.simps) simp
  have fl: "fst (Flush ?cb) = Some ErrClosedPipe"
    by (simp add: Flush_def dial_def conn_Write_def crlf_def)
  have n: "NumRequests (optionsProber ''a'') = 2" by (simp add: optionsProber_def)
  obtain s2 where "Flush ?cb = (Some ErrClosedPipe, s2)" using fl by (cases "Flush ?cb") simp
  then show ?thesis by (simp add: calls_eq n wl)
qed

text \<open>
  C2, as stated, fails: the peer rejects every byte written. No \<open>WriteRequest\<close> call
  returns an error (the requests stay in the writer's buffer), no \<open>ReadRequest\<close> call
  is made, so none returns an error; yet \<open>Probe\<close> returns the error of the flush and no
  verdict.
\<close>

theorem flush_failure_counterexample:
  "calls Flush (optionsProber ''a'') (dial (render ok_response @ render bad_request) (Some 0)) =
     [WriteCall 0 None, WriteCall 1 None, FlushCall (Some ErrClosedPipe)] \<and>
   fst (Probe Flush (optionsProber ''a'') (dial (render ok_response @ render bad_request) (Some 0))) =
     (False, Some ErrClosedPipe)"
proof -
  let ?c = "dial (render ok_response @ render bad_request) (Some 0)"
  have "FlushCall (Some ErrClosedPipe) \<in> set (calls Flush (optionsProber ''a'') ?c)"
    by (simp add: calls_broken)
  then have "fst (Probe Flush (optionsProber ''a'') ?c) = (False, Some ErrClosedPipe)"
    using Probe_calls [of Flush "optionsProber ''a''" ?c ErrClosedPipe] by simp
  then show ?thesis by (simp add: calls_broken)
qed

text \<open>
  C2, amended: of the calls that \<open>Probe\<close> makes (\<open>WriteRequest\<close> for every id, one
  flush, and the \<open>ReadRequest\<close> calls), if none returns an error, then \<open>Probe\<close> returns
  (v, nil), where v is the conjunction of the \<open>expected\<close> results of \<open>ReadRequest\<close>, which
  was called for the ids 0 to N-1; if any of them returns an error, \<open>Probe\<close> returns
  false and one of the errors returned, and no verdict; and if the flush returns an
  error, \<open>Probe\<close> returns that error, the flush is the last call, after
  \<open>WriteRequest\<close> for every id, and \<open>ReadRequest\<close> is not called at all.
\<close>

theorem Probe_verdict_or_error:
  "((\<forall>c\<in>set (calls flush p s). call_err c = None) \<longrightarrow>
      fst (Probe flush p s) = (list_all call_expected (calls flush p s), None) \<and>
      map shape (calls flush p s) = map W [0..<NumRequests p] @ F # map R [0..<NumRequests p]) \<and>
   ((\<exists>c\<in>set (calls flush p s). call_err c \<noteq> None) \<longrightarrow>
      (\<exists>e. fst (Probe flush p s) = (False, Some e) \<and> Some e \<in> call_err ` set (calls flush p s))) \<and>
   (FlushCall (Some e) \<in> set (calls flush p s) \<longrightarrow>
      fst (Probe flush p s) = (False, Some e) \<and>
      map shape (calls flush p s) = map W [0..<NumRequests p] @ [F] \<and>
      (\<forall>i x er. ReadCall i x er \<notin> set (calls flush p s)))"
  by (rule Probe_calls)

theorem Probe_verdict_or_error_witness:
  "calls Flush (optionsProber ''example.com'') (dial (render ok_response @ render bad_request) None) =
     [WriteCall 0 None, WriteCall 1 None, FlushCall None, ReadCall 0 True None, ReadCall 1 True None] \<and>
   fst (Probe Flush (optionsProber ''example.com'') (dial (render ok_response @ render bad_request) None)) =
     (True, None) \<and>
   calls Flush (optionsProber ''example.com'') (dial (render bad_request) None) =
     [WriteCall 0 None, WriteCall 1 None, FlushCall None, ReadCall 0 False None, ReadCall 1 False None] \<and>
   fst (Probe Flush (optionsProber ''example.com'') (dial (render bad_request) None)) = (False, None)"
proof -
  let ?c = "dial (render ok_response @ render bad_request) None"
  have c: "calls Flush (optionsProber ''example.com'') ?c =
     [WriteCall 0 None, WriteCall 1 None, FlushCall None, ReadCall 0 True None, ReadCall 1 True None]"
    using calls_default [OF parse_bad_ok(2,4), of "''example.com''"] by simp
  have "fst (Probe Flush (optionsProber ''example.com'') ?c) = (True, None)"
    using Probe_verdict_or_error [of Flush "optionsProber ''example.com''" ?c] by (simp add: c)
  moreover have "fst (Probe Flush (optionsProber ''example.com'') (dial (render bad_request) None)) = (False, None)"
    by (simp add: Probe_default_dial default_outcome_then_EOF [OF parse_bad_ok(4) parseStatus_empty])
  moreover have "calls Flush (optionsProber ''example.com'') (dial (render bad_request) None) =
     [WriteCall 0 None, WriteCall 1 None, FlushCall None, ReadCall 0 False None, ReadCall 1 False None]"
  proof -
    have d: "werr (dial (render bad_request) None) = None" "limit (dial (render bad_request) None) = None"
      by (simp_all add: dial_def)
    from optionsProber_writes [OF d, of "''example.com''"] obtain c1' where c1:
      "writer_loop (optionsProber ''example.com'') 2 0 (dial (render bad_request) None) = ([(0, None), (1, None)], c1')"
      "werr c1' = None" "limit c1' = None" "incoming c1' = incoming (dial (render bad_request) None)" by blast
    from Flush_accepts [OF c1(2,3)] obtain c2 where c2: "Flush c1' = (None, c2)"
      "incoming c2 = incoming c1'" by blast
    have n: "NumRequests (optionsProber ''example.com'') = 2" by (simp add: optionsProber_def)
    have "incoming c2 = render bad_request" using c2(2) c1(4) by (simp add: dial_def)
    then have "read_log (optionsProber ''example.com'') [(0, None), (1, None)] c2 =
       [ReadCall 0 False None, ReadCall 1 False None]"
      using parse_bad_ok(4) parseStatus_empty
      by (simp add: optionsProber_def optionsProber_ReadRequest_def)
    then show ?thesis by (simp add: calls_eq n c1(1) c2(1))
  qed
  ultimately show ?thesis using c by simp
qed

text \<open>
  C9: a prober with no requests, on a connection whose writer is fresh. \<open>Probe\<close> calls
  neither \<open>WriteRequest\<close> nor \<open>ReadRequest\<close>; its one call is the flush of the empty
  buffer, which writes nothing; the connection and both buffers are left as they were,
  and the result is (true, nil).
\<close>

theorem Probe_no_requests:
  assumes "NumRequests p = 0" "wbuf s = []" "werr s = None"
  shows "Probe Flush p s = ((True, None), s) \<and> calls Flush p s = [FlushCall None]"
proof -
  have w: "writer_loop p 0 0 s = ([], s)" by (subst writer_loop.simps) simp
  have f: "Flush s = (None, s)" using assms(2,3) by (simp add: Flush_def)
  show ?thesis by (simp add: Probe_def calls_eq assms(1) w f)
qed

theorem Probe_no_requests_witness:
  "NumRequests ((optionsProber ''example.com'')\<lparr>NumRequests := 0\<rparr>) = 0 \<and>
   wbuf (dial ''abc'' None) = [] \<and> werr (dial ''abc'' None) = None \<and>
   Probe Flush ((optionsProber ''example.com'')\<lparr>NumRequests := 0\<rparr>) (dial ''abc'' None) =
     ((True, None), dial ''abc'' None) \<and>
   calls Flush ((optionsProber ''example.com'')\<lparr>NumRequests := 0\<rparr>) (dial ''abc'' None) = [FlushCall None]"
  using Probe_no_requests [of "(optionsProber ''example.com'')\<lparr>NumRequests := 0\<rparr>" "dial ''abc'' None"]
  by (simp add: dial_def)

section \<open>The goroutine and the caller, step by step\<close>

text \<open>
  \<^verbatim>\<open>Probe\<close> as two threads. The goroutine (lines 90 to 97) is in its loop before the
  iteration \<open>i\<close> (\<open>GLoop i\<close>), has flushed and waits to send the result on the channel
  \<^verbatim>\<open>flush\<close> (\<open>GSend\<close>), is about to close \<^verbatim>\<open>writes\<close> (\<open>GClose\<close>), or is done. The
  caller (lines 99 to 116) waits to receive from \<^verbatim>\<open>flush\<close> (\<open>MFlush\<close>), runs its loop
  over \<^verbatim>\<open>writes\<close> with the current value of \<^verbatim>\<open>available\<close> (\<open>MRange\<close>), or has returned.
  The channel \<^verbatim>\<open>writes\<close> is a queue with room for \<^verbatim>\<open>NumRequests\<close> records; \<^verbatim>\<open>flush\<close>
  has no buffer, so its send and receive are one step of both threads (\<open>sync\<close>). A step
  of one thread is one call of \<open>WriteRequest\<close>, \<^verbatim>\<open>bw.Flush\<close> or \<open>ReadRequest\<close> together
  with the channel operation that follows it in that thread.
\<close>

datatype gstate = GLoop nat | GSend "error option" | GClose | GDone

datatype mstate = MFlush | MRange bool | MReturn "bool \<times> error option"

record 's config =
  world :: 's
  goroutine :: gstate
  writes_ch :: "write_rec list"
  writes_closed :: bool
  caller :: mstate

definition init :: "'s \<Rightarrow> 's config" where
  "init s = \<lparr>world = s, goroutine = GLoop 0, writes_ch = [], writes_closed = False, caller = MFlush\<rparr>"

inductive step :: "('s \<Rightarrow> error option \<times> 's) \<Rightarrow> 's Prober \<Rightarrow> 's config \<Rightarrow> 's config \<Rightarrow> bool"
  for flush :: "'s \<Rightarrow> error option \<times> 's" and p :: "'s Prober" where
  g_write:
    "goroutine c = GLoop i \<Longrightarrow> i < NumRequests p \<Longrightarrow> length (writes_ch c) < NumRequests p \<Longrightarrow>
     WriteRequest p i (world c) = (err, w') \<Longrightarrow>
     step flush p c (c\<lparr>world := w', writes_ch := writes_ch c @ [(i, err)], goroutine := GLoop (Suc i)\<rparr>)"
| g_flush:
    "goroutine c = GLoop i \<Longrightarrow> \<not> i < NumRequests p \<Longrightarrow> flush (world c) = (err, w') \<Longrightarrow>
     step flush p c (c\<lparr>world := w', goroutine := GSend err\<rparr>)"
| sync:
    "goroutine c = GSend err \<Longrightarrow> caller c = MFlush \<Longrightarrow>
     step flush p c
       (c\<lparr>goroutine := GClose,
          caller := (case err of Some e \<Rightarrow> MReturn (False, Some e) | None \<Rightarrow> MRange True)\<rparr>)"
| g_close:
    "goroutine c = GClose \<Longrightarrow>
     step flush p c (c\<lparr>writes_closed := True, goroutine := GDone\<rparr>)"
| m_failed:
    "caller c = MRange available \<Longrightarrow> writes_ch c = (i, Some e) # ws \<Longrightarrow>
     step flush p c (c\<lparr>writes_ch := ws, caller := MReturn (False, Some e)\<rparr>)"
| m_read:
    "caller c = MRange available \<Longrightarrow> writes_ch c = (i, None) # ws \<Longrightarrow>
     ReadRequest p i (world c) = ((expected, err), w') \<Longrightarrow>
     step flush p c
       (c\<lparr>world := w', writes_ch := ws,
          caller := (case err of Some e \<Rightarrow> MReturn (False, Some e)
                     | None \<Rightarrow> MRange (available \<and> expected))\<rparr>)"
| m_end:
    "caller c = MRange available \<Longrightarrow> writes_ch c = [] \<Longrightarrow> writes_closed c \<Longrightarrow>
     step flush p c (c\<lparr>caller := MReturn (available, None)\<rparr>)"

definition after_sync ::
  "('s \<Rightarrow> error option \<times> 's) \<Rightarrow> 's Prober \<Rightarrow> 's \<Rightarrow> 's config \<Rightarrow> bool" where
  "after_sync flush p s c \<longleftrightarrow>
     (\<exists>ws s1 fe s2. writer_loop p (NumRequests p) 0 s = (ws, s1) \<and> flush s1 = (fe, s2) \<and>
        (case caller c of
           MFlush \<Rightarrow> False
         | MRange available \<Rightarrow>
             fe = None \<and> length (writes_ch c) \<le> length ws \<and>
             reader_loop p ws True s2 = reader_loop p (writes_ch c) available (world c)
         | MReturn res \<Rightarrow> Probe flush p s = (res, world c)))"

definition agrees :: "('s \<Rightarrow> error option \<times> 's) \<Rightarrow> 's Prober \<Rightarrow> 's \<Rightarrow> 's config \<Rightarrow> bool" where
  "agrees flush p s c \<longleftrightarrow>
     (case goroutine c of
        GLoop i \<Rightarrow>
          i \<le> NumRequests p \<and> caller c = MFlush \<and> \<not> writes_closed c \<and>
          writer_loop p i 0 s = (writes_ch c, world c)
      | GSend err \<Rightarrow>
          caller c = MFlush \<and> \<not> writes_closed c \<and>
          (\<exists>s1. writer_loop p (NumRequests p) 0 s = (writes_ch c, s1) \<and> flush s1 = (err, world c))
      | GClose \<Rightarrow> \<not> writes_closed c \<and> after_sync flush p s c
      | GDone \<Rightarrow> writes_closed c \<and> after_sync flush p s c)"

lemma writer_loop_snoc_gen:
  "j \<le> n \<Longrightarrow>
   writer_loop p (Suc n) j s =
     (case writer_loop p n j s of
        (ws, w) \<Rightarrow> (case WriteRequest p n w of (e, w') \<Rightarrow> (ws @ [(n, e)], w')))"
proof (induction "n - j" arbitrary: j s)
  case 0
  then have j: "j = n" by simp
  have "writer_loop p n n s = ([], s)" by (subst writer_loop.simps) simp
  moreover have "writer_loop p (Suc n) (Suc n) w = ([], w)" for w by (subst writer_loop.simps) simp
  ultimately show ?case
    unfolding j by (subst writer_loop.simps) (simp split: prod.splits)
next
  case (Suc k)
  then have lt: "j < n" and k: "k = n - Suc j" and le: "Suc j \<le> n" by simp_all
  obtain err s' where w: "WriteRequest p j s = (err, s')" by (cases "WriteRequest p j s")
  show ?case
    using Suc.hyps(1) [OF k le, of s'] lt
    by (simp add: writer_loop.simps [of p "Suc n" j] writer_loop.simps [of p n j] w
        split: prod.splits)
qed

lemma writer_loop_snoc:
  "writer_loop p (Suc n) 0 s =
     (case writer_loop p n 0 s of
        (ws, w) \<Rightarrow> (case WriteRequest p n w of (e, w') \<Rightarrow> (ws @ [(n, e)], w')))"
  by (rule writer_loop_snoc_gen) simp

lemma writer_loop_length: "writer_loop p n 0 s = (ws, s') \<Longrightarrow> length ws = n"
  using writer_loop_ids [of p n 0 s ws s'] by (metis diff_zero length_map length_upt)

section \<open>Every interleaving returns what Probe returns\<close>

lemma agrees_init: "agrees flush p s (init s)"
  by (simp add: agrees_def init_def writer_loop.simps [of p 0 0])

lemma after_sync_goroutine [simp]:
  "after_sync flush p s (c\<lparr>writes_closed := x, goroutine := g\<rparr>) = after_sync flush p s c"
  "after_sync flush p s (c\<lparr>goroutine := g\<rparr>) = after_sync flush p s c"
  "after_sync flush p s (c\<lparr>writes_closed := x\<rparr>) = after_sync flush p s c"
  by (simp_all add: after_sync_def cong: mstate.case_cong)

lemma agrees_after_sync:
  "agrees flush p s c \<Longrightarrow> caller c \<noteq> MFlush \<Longrightarrow>
   after_sync flush p s c \<and> (goroutine c = GClose \<or> goroutine c = GDone)"
  by (cases "goroutine c") (simp_all add: agrees_def)

lemma after_sync_agrees:
  "agrees flush p s c \<Longrightarrow> caller c \<noteq> MFlush \<Longrightarrow>
   goroutine c' = goroutine c \<Longrightarrow> writes_closed c' = writes_closed c \<Longrightarrow>
   after_sync flush p s c' \<Longrightarrow> agrees flush p s c'"
  by (cases "goroutine c") (simp_all add: agrees_def)

lemma after_sync_rangeD:
  assumes "after_sync flush p s c" "caller c = MRange available"
  obtains ws s1 s2 where "writer_loop p (NumRequests p) 0 s = (ws, s1)" "flush s1 = (None, s2)"
    "length (writes_ch c) \<le> length ws"
    "reader_loop p ws True s2 = reader_loop p (writes_ch c) available (world c)"
  using assms by (auto simp: after_sync_def)

lemma after_sync_returnI:
  "Probe flush p s = (res, world c) \<Longrightarrow> caller c = MReturn res \<Longrightarrow> after_sync flush p s c"
  by (cases "writer_loop p (NumRequests p) 0 s"; cases "flush (snd (writer_loop p (NumRequests p) 0 s))")
     (auto simp: after_sync_def)

lemma agrees_step:
  assumes "step flush p c c'" "agrees flush p s c"
  shows "agrees flush p s c'"
  using assms
proof (cases rule: step.cases)
  case (g_write i err w')
  then have a: "i \<le> NumRequests p" "caller c = MFlush" "\<not> writes_closed c"
    "writer_loop p i 0 s = (writes_ch c, world c)"
    using assms(2) by (simp_all add: agrees_def)
  have "writer_loop p (Suc i) 0 s = (writes_ch c @ [(i, err)], w')"
    using a(4) g_write(5) by (simp add: writer_loop_snoc)
  then show ?thesis using g_write a by (simp add: agrees_def)
next
  case (g_flush i err w')
  have a: "i \<le> NumRequests p" "caller c = MFlush" "\<not> writes_closed c"
    "writer_loop p i 0 s = (writes_ch c, world c)"
    using assms(2) g_flush(2) by (simp_all add: agrees_def)
  have "i = NumRequests p" using a(1) g_flush(3) by simp
  then have "writer_loop p (NumRequests p) 0 s = (writes_ch c, world c)" using a(4) by simp
  then show ?thesis using g_flush a(2,3) by (auto simp: agrees_def)
next
  case (sync err)
  then obtain s1 where a: "\<not> writes_closed c"
    "writer_loop p (NumRequests p) 0 s = (writes_ch c, s1)" "flush s1 = (err, world c)"
    using assms(2) by (auto simp: agrees_def)
  show ?thesis
  proof (cases err)
    case None
    then show ?thesis using sync a by (auto simp: agrees_def after_sync_def)
  next
    case (Some e)
    have "Probe flush p s = ((False, Some e), world c)" using a(2,3) Some by (simp add: Probe_def)
    then have "after_sync flush p s c'" using sync Some by (intro after_sync_returnI) simp_all
    then show ?thesis using sync a(1) by (simp add: agrees_def)
  qed
next
  case g_close
  then show ?thesis using assms(2) by (simp add: agrees_def)
next
  case (m_failed available i e ws')
  from agrees_after_sync [OF assms(2)] m_failed(2)
  have as: "after_sync flush p s c" by simp
  from as m_failed(2) obtain ws s1 s2 where a:
    "writer_loop p (NumRequests p) 0 s = (ws, s1)" "flush s1 = (None, s2)"
    "length (writes_ch c) \<le> length ws"
    "reader_loop p ws True s2 = reader_loop p (writes_ch c) available (world c)"
    by (rule after_sync_rangeD)
  have "Probe flush p s = ((False, Some e), world c)"
    using a m_failed(3) by (simp add: Probe_def)
  then have "after_sync flush p s c'" using m_failed by (intro after_sync_returnI) simp_all
  then show ?thesis using m_failed by (intro after_sync_agrees [OF assms(2)]) simp_all
next
  case (m_read available i ws' expected err w')
  from agrees_after_sync [OF assms(2)] m_read(2)
  have as: "after_sync flush p s c" by simp
  from as m_read(2) obtain ws s1 s2 where a:
    "writer_loop p (NumRequests p) 0 s = (ws, s1)" "flush s1 = (None, s2)"
    "length (writes_ch c) \<le> length ws"
    "reader_loop p ws True s2 = reader_loop p (writes_ch c) available (world c)"
    by (rule after_sync_rangeD)
  have "after_sync flush p s c'"
  proof (cases err)
    case None
    have "reader_loop p ws True s2 = reader_loop p ws' (available \<and> expected) w'"
      using a(4) m_read(3,4) None by simp
    then show ?thesis using m_read a(1,2,3) None by (auto simp: after_sync_def)
  next
    case (Some e)
    have "Probe flush p s = ((False, Some e), w')"
      using a m_read(3,4) Some by (simp add: Probe_def)
    then show ?thesis using m_read Some by (intro after_sync_returnI) simp_all
  qed
  then show ?thesis using m_read by (intro after_sync_agrees [OF assms(2)]) simp_all
next
  case (m_end available)
  from agrees_after_sync [OF assms(2)] m_end(2)
  have as: "after_sync flush p s c" by simp
  from as m_end(2) obtain ws s1 s2 where a:
    "writer_loop p (NumRequests p) 0 s = (ws, s1)" "flush s1 = (None, s2)"
    "length (writes_ch c) \<le> length ws"
    "reader_loop p ws True s2 = reader_loop p (writes_ch c) available (world c)"
    by (rule after_sync_rangeD)
  have "Probe flush p s = ((available, None), world c)"
    using a m_end(3) by (simp add: Probe_def)
  then have "after_sync flush p s c'" using m_end by (intro after_sync_returnI) simp_all
  then show ?thesis using m_end by (intro after_sync_agrees [OF assms(2)]) simp_all
qed

lemma agrees_reachable:
  "(step flush p)\<^sup>*\<^sup>* (init s) c \<Longrightarrow> agrees flush p s c"
  by (induction rule: rtranclp_induct) (auto intro: agrees_init agrees_step)

text \<open>
  Whatever the interleaving of the goroutine and the caller, when the caller returns it
  returns what \<open>Probe\<close> computes, and the state of the world is the one \<open>Probe\<close> leaves.
\<close>

lemma step_Probe:
  assumes "(step flush p)\<^sup>*\<^sup>* (init s) c" "caller c = MReturn res"
  shows "Probe flush p s = (res, world c)"
proof -
  have "after_sync flush p s c"
    using agrees_after_sync [OF agrees_reachable [OF assms(1)]] assms(2) by simp
  then show ?thesis using assms(2) by (auto simp: after_sync_def)
qed

section \<open>The order of the calls\<close>

definition full_order :: "nat \<Rightarrow> event list" where
  "full_order n = map W [0..<n] @ F # map R [0..<n]"

definition reading :: "nat \<Rightarrow> ('s \<times> call list) config \<Rightarrow> bool" where
  "reading n c \<longleftrightarrow>
     (\<exists>j\<le>n. map shape (snd (world c)) = map W [0..<n] @ F # map R [0..<j] \<and>
        (case caller c of
           MFlush \<Rightarrow> False
         | MRange available \<Rightarrow> map fst (writes_ch c) = [j..<n]
         | MReturn res \<Rightarrow> snd res = None \<longrightarrow> j = n))"

definition ordered :: "nat \<Rightarrow> ('s \<times> call list) config \<Rightarrow> bool" where
  "ordered n c \<longleftrightarrow>
     (case goroutine c of
        GLoop i \<Rightarrow>
          i \<le> n \<and> caller c = MFlush \<and> map fst (writes_ch c) = [0..<i] \<and>
          map shape (snd (world c)) = map W [0..<i]
      | GSend err \<Rightarrow>
          caller c = MFlush \<and> map fst (writes_ch c) = [0..<n] \<and>
          map shape (snd (world c)) = map W [0..<n] @ [F]
      | GClose \<Rightarrow> reading n c
      | GDone \<Rightarrow> reading n c)"

lemma reading_goroutine [simp]:
  "reading n (c\<lparr>writes_closed := x, goroutine := g\<rparr>) = reading n c"
  "reading n (c\<lparr>goroutine := g\<rparr>) = reading n c"
  "reading n (c\<lparr>writes_closed := x\<rparr>) = reading n c"
  by (simp_all add: reading_def cong: mstate.case_cong)

lemma readingI:
  "j \<le> n \<Longrightarrow> map shape (snd (world c)) = map W [0..<n] @ F # map R [0..<j] \<Longrightarrow>
   (case caller c of
      MFlush \<Rightarrow> False
    | MRange available \<Rightarrow> map fst (writes_ch c) = [j..<n]
    | MReturn res \<Rightarrow> snd res = None \<longrightarrow> j = n) \<Longrightarrow> reading n c"
  by (auto simp: reading_def)

lemma ordered_reading:
  "ordered n c \<Longrightarrow> caller c \<noteq> MFlush \<Longrightarrow>
   reading n c \<and> (goroutine c = GClose \<or> goroutine c = GDone)"
  by (cases "goroutine c") (simp_all add: ordered_def)

lemma reading_ordered:
  "ordered n c \<Longrightarrow> caller c \<noteq> MFlush \<Longrightarrow> goroutine c' = goroutine c \<Longrightarrow>
   reading n c' \<Longrightarrow> ordered n c'"
  by (cases "goroutine c") (simp_all add: ordered_def)

lemma logged_WriteRequest:
  "WriteRequest (logged p) i x = (err, x') \<Longrightarrow> snd x' = snd x @ [WriteCall i err]"
  by (cases x) (auto simp: logged_simps split: prod.splits)

lemma logged_ReadRequest:
  "ReadRequest (logged p) i x = ((expected, err), x') \<Longrightarrow>
   snd x' = snd x @ [ReadCall i expected err]"
  by (cases x) (auto simp: logged_simps split: prod.splits)

lemma logged_flush_log:
  "logged_flush flush x = (err, x') \<Longrightarrow> snd x' = snd x @ [FlushCall err]"
  by (cases x) (auto simp: logged_flush_def split: prod.splits)

lemma ordered_init: "ordered n (init (s, []))"
  by (simp add: ordered_def init_def)

lemma ordered_step:
  assumes "step (logged_flush flush) (logged p) c c'" "ordered (NumRequests p) c"
  shows "ordered (NumRequests p) c'"
  using assms
proof (cases rule: step.cases)
  case (g_write i err w')
  have a: "map fst (writes_ch c) = [0..<i]" "map shape (snd (world c)) = map W [0..<i]"
    "caller c = MFlush"
    using assms(2) g_write(2) by (simp_all add: ordered_def)
  have "snd w' = snd (world c) @ [WriteCall i err]"
    using g_write(5) by (rule logged_WriteRequest)
  then show ?thesis using g_write a by (simp add: ordered_def logged_simps)
next
  case (g_flush i err w')
  have a: "i \<le> NumRequests p" "map fst (writes_ch c) = [0..<i]"
    "map shape (snd (world c)) = map W [0..<i]" "caller c = MFlush"
    using assms(2) g_flush(2) by (simp_all add: ordered_def)
  have i: "i = NumRequests p" using a(1) g_flush(3) by (simp add: logged_simps)
  have "snd w' = snd (world c) @ [FlushCall err]"
    using g_flush(4) by (rule logged_flush_log)
  then show ?thesis using g_flush(1,2) a(2,3,4) by (simp add: ordered_def i)
next
  case (sync err)
  have a: "map fst (writes_ch c) = [0..<NumRequests p]"
    "map shape (snd (world c)) = map W [0..<NumRequests p] @ [F]"
    using assms(2) sync(2) by (simp_all add: ordered_def)
  have "reading (NumRequests p) c'"
    using a sync(1) by (intro readingI [of 0]) (simp_all split: option.splits)
  then show ?thesis using sync(1) by (simp add: ordered_def)
next
  case g_close
  then show ?thesis using assms(2) by (simp add: ordered_def)
next
  case (m_failed available i e ws')
  from ordered_reading [OF assms(2)] m_failed(2) have "reading (NumRequests p) c" by simp
  then obtain j where j: "j \<le> NumRequests p"
    "map shape (snd (world c)) = map W [0..<NumRequests p] @ F # map R [0..<j]"
    by (auto simp: reading_def)
  have "reading (NumRequests p) c'"
    using j m_failed(1) by (intro readingI [of j]) simp_all
  then show ?thesis using m_failed by (intro reading_ordered [OF assms(2)]) simp_all
next
  case (m_read available i ws' expected err w')
  from ordered_reading [OF assms(2)] m_read(2) have "reading (NumRequests p) c" by simp
  then obtain j where j: "j \<le> NumRequests p"
    "map shape (snd (world c)) = map W [0..<NumRequests p] @ F # map R [0..<j]"
    "map fst (writes_ch c) = [j..<NumRequests p]"
    using m_read(2) by (auto simp: reading_def)
  have "[j..<NumRequests p] = i # map fst ws'" using j(3) m_read(3) by simp
  then have ij: "i = j" "j < NumRequests p" "map fst ws' = [Suc j..<NumRequests p]"
    by (auto simp: upt_eq_Cons_conv)
  have "snd w' = snd (world c) @ [ReadCall i expected err]"
    using m_read(4) by (rule logged_ReadRequest)
  then have sh: "map shape (snd w') = map W [0..<NumRequests p] @ F # map R [0..<Suc j]"
    using j(2) ij(1) by simp
  have "reading (NumRequests p) c'"
    using sh ij(2,3) m_read(1) by (intro readingI [of "Suc j"]) (simp_all split: option.splits)
  then show ?thesis using m_read by (intro reading_ordered [OF assms(2)]) simp_all
next
  case (m_end available)
  from ordered_reading [OF assms(2)] m_end(2) have "reading (NumRequests p) c" by simp
  then obtain j where j: "j \<le> NumRequests p"
    "map shape (snd (world c)) = map W [0..<NumRequests p] @ F # map R [0..<j]"
    "map fst (writes_ch c) = [j..<NumRequests p]"
    using m_end(2) by (auto simp: reading_def)
  have "[j..<NumRequests p] = []" using j(3) m_end(3) by simp
  then have "j = NumRequests p" using j(1) by auto
  then have "reading (NumRequests p) c'"
    using j(2) m_end(1) by (intro readingI [of "NumRequests p"]) simp_all
  then show ?thesis using m_end by (intro reading_ordered [OF assms(2)]) simp_all
qed

lemma ordered_reachable:
  "(step (logged_flush flush) (logged p))\<^sup>*\<^sup>* (init (s, [])) c \<Longrightarrow> ordered (NumRequests p) c"
  by (induction rule: rtranclp_induct) (auto intro: ordered_init ordered_step)

section \<open>Runs to completion\<close>

lemma writes_run:
  "i \<le> NumRequests p \<Longrightarrow>
   (step flush p)\<^sup>*\<^sup>* (init s)
     \<lparr>world = snd (writer_loop p i 0 s), goroutine = GLoop i,
      writes_ch = fst (writer_loop p i 0 s), writes_closed = False, caller = MFlush\<rparr>"
proof (induction i)
  case 0
  have "writer_loop p 0 0 s = ([], s)" by (subst writer_loop.simps) simp
  then show ?case by (simp add: init_def)
next
  case (Suc i)
  let ?c = "\<lparr>world = snd (writer_loop p i 0 s), goroutine = GLoop i,
      writes_ch = fst (writer_loop p i 0 s), writes_closed = False, caller = MFlush\<rparr>"
  obtain ws w where wl: "writer_loop p i 0 s = (ws, w)" by (cases "writer_loop p i 0 s")
  obtain err w' where wr: "WriteRequest p i w = (err, w')" by (cases "WriteRequest p i w")
  have len: "length ws = i" using wl by (rule writer_loop_length)
  have "step flush p ?c (?c\<lparr>world := w', writes_ch := writes_ch ?c @ [(i, err)], goroutine := GLoop (Suc i)\<rparr>)"
    using Suc.prems len by (intro g_write) (simp_all add: wl wr)
  moreover have "writer_loop p (Suc i) 0 s = (ws @ [(i, err)], w')"
    by (simp add: writer_loop_snoc wl wr)
  ultimately have "step flush p ?c
     \<lparr>world = snd (writer_loop p (Suc i) 0 s), goroutine = GLoop (Suc i),
      writes_ch = fst (writer_loop p (Suc i) 0 s), writes_closed = False, caller = MFlush\<rparr>"
    by (simp add: wl)
  moreover have "(step flush p)\<^sup>*\<^sup>* (init s) ?c" using Suc by simp
  ultimately show ?case by (rule rtranclp.rtrancl_into_rtrancl [rotated])
qed

lemma reads_run:
  "caller c = MRange available \<Longrightarrow> writes_closed c \<Longrightarrow> writes_ch c = ws \<Longrightarrow>
   \<exists>c'. (step flush p)\<^sup>*\<^sup>* c c' \<and>
        (caller c', world c') =
          (MReturn (fst (reader_loop p ws available (world c))),
           snd (reader_loop p ws available (world c)))"
proof (induction ws arbitrary: c available)
  case Nil
  have "step flush p c (c\<lparr>caller := MReturn (available, None)\<rparr>)"
    using Nil by (intro m_end) simp_all
  then show ?case by (intro exI [of _ "c\<lparr>caller := MReturn (available, None)\<rparr>"]) simp
next
  case (Cons w ws)
  obtain i err where w: "w = (i, err)" by (cases w)
  show ?case
  proof (cases err)
    case (Some e)
    have "step flush p c (c\<lparr>writes_ch := ws, caller := MReturn (False, Some e)\<rparr>)"
      using Cons.prems by (intro m_failed [of _ available i]) (simp_all add: w Some)
    then show ?thesis
      by (intro exI [of _ "c\<lparr>writes_ch := ws, caller := MReturn (False, Some e)\<rparr>"])
         (simp add: w Some)
  next
    case None
    obtain x e w' where r: "ReadRequest p i (world c) = ((x, e), w')" by (metis prod.exhaust)
    let ?c1 = "c\<lparr>world := w', writes_ch := ws,
          caller := (case e of Some e \<Rightarrow> MReturn (False, Some e)
                     | None \<Rightarrow> MRange (available \<and> x))\<rparr>"
    have st: "step flush p c ?c1"
      using Cons.prems r by (intro m_read [of _ available i]) (simp_all add: w None)
    show ?thesis
    proof (cases e)
      case (Some er)
      then show ?thesis using st by (intro exI [of _ ?c1]) (simp add: w None r)
    next
      case ok: None
      have "caller ?c1 = MRange (available \<and> x)" "writes_closed ?c1" "writes_ch ?c1 = ws"
        using Cons.prems by (simp_all add: ok)
      from Cons.IH [OF this] obtain c' where c': "(step flush p)\<^sup>*\<^sup>* ?c1 c'"
        "(caller c', world c') =
          (MReturn (fst (reader_loop p ws (available \<and> x) (world ?c1))),
           snd (reader_loop p ws (available \<and> x) (world ?c1)))" by blast
      have "(step flush p)\<^sup>*\<^sup>* c c'" using st c'(1) by (rule converse_rtranclp_into_rtranclp)
      then show ?thesis using c'(2) by (intro exI [of _ c']) (simp add: w None r ok)
    qed
  qed
qed

text \<open>Some interleaving runs to the end: the goroutine first, then the caller.\<close>

lemma run_exists:
  "\<exists>c. (step flush p)\<^sup>*\<^sup>* (init s) c \<and> caller c = MReturn (fst (Probe flush p s)) \<and>
       world c = snd (Probe flush p s)"
proof -
  obtain ws s1 where wl: "writer_loop p (NumRequests p) 0 s = (ws, s1)"
    by (cases "writer_loop p (NumRequests p) 0 s")
  obtain fe s2 where fl: "flush s1 = (fe, s2)" by (cases "flush s1")
  let ?c0 = "\<lparr>world = s1, goroutine = GLoop (NumRequests p), writes_ch = ws,
      writes_closed = False, caller = MFlush\<rparr>"
  let ?c1 = "?c0\<lparr>world := s2, goroutine := GSend fe\<rparr>"
  let ?c2 = "?c1\<lparr>goroutine := GClose,
          caller := (case fe of Some e \<Rightarrow> MReturn (False, Some e) | None \<Rightarrow> MRange True)\<rparr>"
  let ?c3 = "?c2\<lparr>writes_closed := True, goroutine := GDone\<rparr>"
  have r0: "(step flush p)\<^sup>*\<^sup>* (init s) ?c0"
    using writes_run [of "NumRequests p" p flush s] by (simp add: wl)
  have "step flush p ?c0 ?c1" by (intro g_flush [of _ "NumRequests p"]) (simp_all add: fl)
  then have r1: "(step flush p)\<^sup>*\<^sup>* (init s) ?c1" using r0 by (rule rtranclp.rtrancl_into_rtrancl [rotated])
  have "step flush p ?c1 ?c2" by (intro sync) simp_all
  then have r2: "(step flush p)\<^sup>*\<^sup>* (init s) ?c2" using r1 by (rule rtranclp.rtrancl_into_rtrancl [rotated])
  have "step flush p ?c2 ?c3" by (intro g_close) simp
  then have r3: "(step flush p)\<^sup>*\<^sup>* (init s) ?c3" using r2 by (rule rtranclp.rtrancl_into_rtrancl [rotated])
  show ?thesis
  proof (cases fe)
    case (Some e)
    have "Probe flush p s = ((False, Some e), s2)" by (simp add: Probe_def wl fl Some)
    then show ?thesis using r3 by (intro exI [of _ ?c3]) (simp add: Some)
  next
    case None
    have "caller ?c3 = MRange True" "writes_closed ?c3" "writes_ch ?c3 = ws" by (simp_all add: None)
    from reads_run [OF this, of flush p] obtain c' where c': "(step flush p)\<^sup>*\<^sup>* ?c3 c'"
      "(caller c', world c') =
          (MReturn (fst (reader_loop p ws True (world ?c3))),
           snd (reader_loop p ws True (world ?c3)))" by blast
    have "(step flush p)\<^sup>*\<^sup>* (init s) c'" using r3 c'(1) by (rule rtranclp_trans)
    moreover have "Probe flush p s = reader_loop p ws True s2" by (simp add: Probe_def wl fl None)
    ultimately show ?thesis using c'(2) by (intro exI [of _ c']) simp
  qed
qed

text \<open>No reachable state is stuck before the caller has returned.\<close>

lemma no_deadlock:
  assumes "(step flush p)\<^sup>*\<^sup>* (init s) c" "\<forall>res. caller c \<noteq> MReturn res"
  shows "\<exists>c'. step flush p c c'"
proof -
  note a = agrees_reachable [OF assms(1)]
  show ?thesis
  proof (cases "goroutine c")
    case (GLoop i)
    then have i: "i \<le> NumRequests p" "writer_loop p i 0 s = (writes_ch c, world c)"
      using a by (simp_all add: agrees_def)
    show ?thesis
    proof (cases "i < NumRequests p")
      case True
      obtain err w' where "WriteRequest p i (world c) = (err, w')"
        by (cases "WriteRequest p i (world c)")
      moreover have "length (writes_ch c) < NumRequests p"
        using writer_loop_length [OF i(2)] True by simp
      ultimately show ?thesis using GLoop True by (blast intro: g_write)
    next
      case False
      obtain err w' where "flush (world c) = (err, w')" by (cases "flush (world c)")
      then show ?thesis using GLoop False by (blast intro: g_flush)
    qed
  next
    case (GSend err)
    then have "caller c = MFlush" using a by (simp add: agrees_def)
    then show ?thesis using GSend by (blast intro: sync)
  next
    case GClose
    then show ?thesis by (blast intro: g_close)
  next
    case GDone
    then have d: "writes_closed c" "after_sync flush p s c" using a by (simp_all add: agrees_def)
    then obtain available where m: "caller c = MRange available"
      using assms(2) by (cases "caller c") (auto simp: after_sync_def)
    show ?thesis
    proof (cases "writes_ch c")
      case Nil
      then show ?thesis using m d(1) by (blast intro: m_end)
    next
      case (Cons w ws)
      obtain i err where w: "w = (i, err)" by (cases w)
      show ?thesis
      proof (cases err)
        case None
        obtain x e w' where "ReadRequest p i (world c) = ((x, e), w')" by (metis prod.exhaust)
        then show ?thesis using m Cons w None by (blast intro: m_read)
      next
        case (Some e)
        then show ?thesis using m Cons w by (blast intro: m_failed)
      qed
    qed
  qed
qed

section \<open>Claim C8: the order of the calls\<close>

lemma Probe_logged:
  "Probe (logged_flush flush) (logged p) (s, []) =
     (fst (Probe flush p s), (snd (Probe flush p s), calls flush p s))"
proof -
  obtain ws s1 where w: "writer_loop p (NumRequests p) 0 s = (ws, s1)"
    by (cases "writer_loop p (NumRequests p) 0 s")
  obtain fe s2 where f: "flush s1 = (fe, s2)" by (cases "flush s1")
  obtain res s3 where r: "reader_loop p ws True s2 = (res, s3)"
    by (cases "reader_loop p ws True s2")
  show ?thesis
    by (cases fe)
       (simp_all add: calls_def Probe_def logged_simps writer_loop_logged w logged_flush_def f
          reader_loop_logged r)
qed

lemma full_order_take:
  "i \<le> n \<Longrightarrow> map W [0..<i] = take i (full_order n)"
  "map W [0..<n] @ [F] = take (Suc n) (full_order n)"
  "j \<le> n \<Longrightarrow> map W [0..<n] @ F # map R [0..<j] = take (Suc n + j) (full_order n)"
  by (simp_all add: full_order_def take_map take_upt)

lemma ordered_prefix:
  assumes "ordered n c"
  shows "\<exists>k. map shape (snd (world c)) = take k (full_order n)"
proof (cases "goroutine c")
  case (GLoop i)
  then show ?thesis using assms full_order_take(1) [of i n] by (auto simp: ordered_def)
next
  case (GSend err)
  then show ?thesis using assms full_order_take(2) [of n] by (auto simp: ordered_def)
next
  case GClose
  then have "reading n c" using assms by (simp add: ordered_def)
  then show ?thesis using full_order_take(3) [of _ n] by (auto simp: reading_def)
next
  case GDone
  then have "reading n c" using assms by (simp add: ordered_def)
  then show ?thesis using full_order_take(3) [of _ n] by (auto simp: reading_def)
qed

lemma ordered_started:
  assumes "ordered n c" "caller c \<noteq> MFlush"
  shows "\<exists>j\<le>n. map shape (snd (world c)) = map W [0..<n] @ F # map R [0..<j]"
  using ordered_reading [OF assms] by (auto simp: reading_def)

lemma ordered_returned:
  assumes "ordered n c" "caller c = MReturn (v, None)"
  shows "map shape (snd (world c)) = full_order n"
proof -
  have "reading n c" using ordered_reading [OF assms(1)] assms(2) by simp
  then show ?thesis using assms(2) by (auto simp: reading_def full_order_def)
qed


lemma calls_default_failed:
  assumes "parseStatus bs = (Inl e, r1)" "e \<noteq> EOF"
  shows "calls Flush (optionsProber host) (dial bs None) =
     [WriteCall 0 None, WriteCall 1 None, FlushCall None, ReadCall 0 False (Some (Malformed e 0))]"
proof -
  have d: "werr (dial bs None) = None" "limit (dial bs None) = None" by (simp_all add: dial_def)
  from optionsProber_writes [OF d, of host] obtain c1' where c1:
    "writer_loop (optionsProber host) 2 0 (dial bs None) = ([(0, None), (1, None)], c1')"
    "werr c1' = None" "limit c1' = None" "incoming c1' = incoming (dial bs None)" by blast
  from Flush_accepts [OF c1(2,3)] obtain c2 where c2: "Flush c1' = (None, c2)"
    "incoming c2 = incoming c1'" by blast
  have n: "NumRequests (optionsProber host) = 2" by (simp add: optionsProber_def)
  have "incoming c2 = bs" using c2(2) c1(4) by (simp add: dial_def)
  then have "read_log (optionsProber host) [(0, None), (1, None)] c2 =
     [ReadCall 0 False (Some (Malformed e 0))]"
    using assms by (simp add: optionsProber_def optionsProber_ReadRequest_def)
  then show ?thesis by (simp add: calls_eq n c1(1) c2(1))
qed

lemma parseStatus_garbage:
  "parseStatus (''GARBAGE'' @ crlf @ crlf) = (Inl (ScanError ''input does not match format''), crlf)"
proof -
  have "is_line (''GARBAGE'' @ crlf)" by (simp add: is_line_def crlf_def)
  then have rs: "ReadString LF ((''GARBAGE'' @ crlf) @ crlf) = ((''GARBAGE'' @ crlf, None), crlf)"
    by (rule ReadString_is_line)
  have sc: "Sscanf_status (''GARBAGE'' @ crlf) = (0, 0, Some (ScanError ''input does not match format''))"
    by (simp add: Sscanf_status_def)
  have eq: "''GARBAGE'' @ crlf @ crlf = (''GARBAGE'' @ crlf) @ crlf" by simp
  show ?thesis unfolding eq parseStatus_def rs by (simp only: prod.case option.case sc)
qed

text \<open>
  C8, as stated, fails: the peer answers the first request with a line that is no status
  line. \<open>Probe\<close> calls \<open>WriteRequest\<close> for the ids 0 and 1, flushes, and calls
  \<open>ReadRequest\<close> for the id 0, which returns an error; \<open>Probe\<close> returns that error,
  and \<open>ReadRequest\<close> is never called for the id 1.
\<close>

theorem read_failure_counterexample:
  "calls Flush (optionsProber ''a'') (dial (''GARBAGE'' @ crlf @ crlf) None) =
     [WriteCall 0 None, WriteCall 1 None, FlushCall None,
      ReadCall 0 False (Some (Malformed (ScanError ''input does not match format'') 0))] \<and>
   map shape (calls Flush (optionsProber ''a'') (dial (''GARBAGE'' @ crlf @ crlf) None)) =
     [W 0, W 1, F, R 0] \<and>
   full_order (NumRequests (optionsProber ''a'')) = [W 0, W 1, F, R 0, R 1] \<and>
   fst (Probe Flush (optionsProber ''a'') (dial (''GARBAGE'' @ crlf @ crlf) None)) =
     (False, Some (Malformed (ScanError ''input does not match format'') 0))"
proof -
  let ?c = "dial (''GARBAGE'' @ crlf @ crlf) None"
  have c: "calls Flush (optionsProber ''a'') ?c =
     [WriteCall 0 None, WriteCall 1 None, FlushCall None,
      ReadCall 0 False (Some (Malformed (ScanError ''input does not match format'') 0))]"
    by (rule calls_default_failed [OF parseStatus_garbage]) simp
  have "\<exists>c\<in>set (calls Flush (optionsProber ''a'') ?c). call_err c \<noteq> None"
    unfolding c by simp
  then have "\<exists>e. fst (Probe Flush (optionsProber ''a'') ?c) = (False, Some e) \<and>
      Some e \<in> call_err ` set (calls Flush (optionsProber ''a'') ?c)"
    using Probe_calls [of Flush "optionsProber ''a''" ?c] by blast
  then have r: "fst (Probe Flush (optionsProber ''a'') ?c) =
     (False, Some (Malformed (ScanError ''input does not match format'') 0))"
    unfolding c by auto
  have f: "full_order (NumRequests (optionsProber ''a'')) = [W 0, W 1, F, R 0, R 1]"
    by (simp add: full_order_def optionsProber_def upt_rec)
  have sh: "map shape (calls Flush (optionsProber ''a'') ?c) = [W 0, W 1, F, R 0]"
    unfolding c by simp
  show ?thesis using c sh f r by (simp only: simp_thms)
qed

text \<open>
  C8, amended. The calls are recorded in a log, and every interleaving of the goroutine
  and the caller is followed step by step. At every moment of every execution the calls
  made so far are an initial part of the sequence \<open>WriteRequest\<close> for 0 to N-1, the
  flush, \<open>ReadRequest\<close> for 0 to N-1. Once the caller is past its receive from the
  channel \<^verbatim>\<open>flush\<close>, every \<open>WriteRequest\<close> call and the one flush have been made, and
  the \<open>ReadRequest\<close> calls made so far are those for the ids 0 to j-1, for some j up to
  N, with no call of \<open>WriteRequest\<close> among them. When \<open>Probe\<close> returns a nil error,
  the whole sequence has been run. And when \<open>Probe\<close> returns, the result and the log
  are those of the function \<open>Probe\<close> and of \<open>calls\<close>.
\<close>

theorem Probe_call_order:
  assumes "(step (logged_flush flush) (logged p))\<^sup>*\<^sup>* (init (s, [])) c"
  shows "(\<exists>k. map shape (snd (world c)) = take k (full_order (NumRequests p)))
   \<and> (caller c \<noteq> MFlush \<longrightarrow>
        (\<exists>j\<le>NumRequests p.
           map shape (snd (world c)) = map W [0..<NumRequests p] @ F # map R [0..<j]))
   \<and> (caller c = MReturn (v, None) \<longrightarrow> map shape (snd (world c)) = full_order (NumRequests p))
   \<and> (caller c = MReturn res \<longrightarrow> res = fst (Probe flush p s) \<and> snd (world c) = calls flush p s)"
proof -
  note ord = ordered_reachable [OF assms]
  have 4: "caller c = MReturn res \<longrightarrow> res = fst (Probe flush p s) \<and> snd (world c) = calls flush p s"
  proof
    assume "caller c = MReturn res"
    from step_Probe [OF assms this] have "Probe (logged_flush flush) (logged p) (s, []) = (res, world c)" .
    then show "res = fst (Probe flush p s) \<and> snd (world c) = calls flush p s"
      by (simp add: Probe_logged prod_eq_iff)
  qed
  show ?thesis
    using ordered_prefix [OF ord] ordered_started [OF ord] ordered_returned [OF ord] 4
    by blast
qed

theorem Probe_call_order_witness:
  "\<exists>c. (step (logged_flush Flush) (logged (optionsProber ''example.com'')))\<^sup>*\<^sup>*
          (init (dial (render ok_response @ render bad_request) None, [])) c \<and>
        caller c = MReturn (True, None) \<and>
        map shape (snd (world c)) = [W 0, W 1, F, R 0, R 1] \<and>
        snd (world c) =
          [WriteCall 0 None, WriteCall 1 None, FlushCall None, ReadCall 0 True None, ReadCall 1 True None]"
proof -
  let ?p = "optionsProber ''example.com''"
  let ?s = "dial (render ok_response @ render bad_request) None"
  have c: "calls Flush ?p ?s =
     [WriteCall 0 None, WriteCall 1 None, FlushCall None, ReadCall 0 True None, ReadCall 1 True None]"
    using calls_default [OF parse_bad_ok(2,4), of "''example.com''"] by simp
  have r: "fst (Probe Flush ?p ?s) = (True, None)"
    using Probe_calls [of Flush ?p ?s] by (simp add: c)
  from run_exists [of "logged_flush Flush" "logged ?p" "(?s, [])"] obtain c where
    reach: "(step (logged_flush Flush) (logged ?p))\<^sup>*\<^sup>* (init (?s, [])) c"
    and ret: "caller c = MReturn (fst (Probe (logged_flush Flush) (logged ?p) (?s, [])))" by blast
  have ret': "caller c = MReturn (True, None)" using ret by (simp add: Probe_logged r)
  have f: "full_order (NumRequests ?p) = [W 0, W 1, F, R 0, R 1]"
    by (simp add: full_order_def optionsProber_def upt_rec)
  note o = Probe_call_order [OF reach, of True "(True, None)"]
  have "map shape (snd (world c)) = full_order (NumRequests ?p)"
    by (rule o [THEN conjunct2, THEN conjunct2, THEN conjunct1, THEN mp, OF ret'])
  then have 1: "map shape (snd (world c)) = [W 0, W 1, F, R 0, R 1]" by (simp only: f)
  have "snd (world c) = calls Flush ?p ?s"
    by (rule o [THEN conjunct2, THEN conjunct2, THEN conjunct2, THEN mp, OF ret', THEN conjunct2])
  then have 2: "snd (world c) =
     [WriteCall 0 None, WriteCall 1 None, FlushCall None, ReadCall 0 True None, ReadCall 1 True None]"
    by (simp only: c)
  show ?thesis using reach ret' 1 2 by (intro exI [of _ c] conjI)
qed

end
